theory Spec2Isabelle
  imports Main
begin

section \<open>Go strings, UTF-8 and the filename sanitizer\<close>

text \<open>
  A Go string is a sequence of bytes, here a \<open>string\<close> (a list of 8-bit \<open>char\<close>s).
  \<open>strings.Map\<close> reads its argument rune by rune, so the UTF-8 decoder and encoder of
  the standard library (package \<open>unicode/utf8\<close>) are part of what \<open>sanitizeFilename\<close>
  computes. A rune is Go's \<open>int32\<close>; the values that occur are the decoded code points
  and \<open>-1\<close>, so plain integers model them without wrap-around.
\<close>

type_synonym rune = int

definition byte :: "char \<Rightarrow> nat" where
  "byte c = of_char c"

definition rune_of :: "char \<Rightarrow> rune" where
  "rune_of c = int (byte c)"

definition RuneError :: rune where
  "RuneError = 0xFFFD"

text \<open>
  \<open>utf8.first\<close>: information about the first byte of an encoding. \<open>0xF0\<close> is ASCII
  (\<open>as\<close>), \<open>0xF1\<close> is an invalid first byte (\<open>xx\<close>); otherwise the low three bits
  give the size and the high four bits the index into \<open>acceptRanges\<close>.
\<close>

definition first :: "nat \<Rightarrow> nat" where
  "first b =
     (if b < 0x80 then 0xF0
      else if b < 0xC2 then 0xF1
      else if b < 0xE0 then 0x02
      else if b = 0xE0 then 0x13
      else if b < 0xED then 0x03
      else if b = 0xED then 0x23
      else if b < 0xF0 then 0x03
      else if b = 0xF0 then 0x34
      else if b < 0xF4 then 0x04
      else if b = 0xF4 then 0x44
      else 0xF1)"

definition acceptRanges :: "nat \<Rightarrow> nat \<times> nat" where
  "acceptRanges i =
     (if i = 1 then (0xA0, 0xBF)
      else if i = 2 then (0x80, 0x9F)
      else if i = 3 then (0x90, 0xBF)
      else if i = 4 then (0x80, 0x8F)
      else (0x80, 0xBF))"

text \<open>
  \<open>utf8.DecodeRuneInString\<close>: the rune at the start of \<open>s\<close> and its width in bytes;
  \<open>(RuneError, 1)\<close> for an invalid encoding. The masks of the source are remainders
  (\<open>s0 & 0x1F\<close> is \<open>s0 mod 32\<close>), the shifts are products, and the bitwise or of
  fields that do not overlap is their sum.
\<close>

definition DecodeRuneInString :: "string \<Rightarrow> rune \<times> nat" where
  "DecodeRuneInString s =
     (if length s < 1 then (RuneError, 0)
      else
        let s0 = byte (s ! 0); x = first s0 in
        if x \<ge> 0xF0 then ((if x = 0xF0 then int s0 else RuneError), 1)
        else
          let sz = x mod 8; (lo, hi) = acceptRanges (x div 16) in
          if length s < sz then (RuneError, 1)
          else
            let s1 = byte (s ! 1) in
            if s1 < lo \<or> hi < s1 then (RuneError, 1)
            else if sz \<le> 2 then (int ((s0 mod 32) * 64 + s1 mod 64), 2)
            else
              let s2 = byte (s ! 2) in
              if s2 < 0x80 \<or> 0xBF < s2 then (RuneError, 1)
              else if sz \<le> 3 then
                (int ((s0 mod 16) * 4096 + (s1 mod 64) * 64 + s2 mod 64), 3)
              else
                let s3 = byte (s ! 3) in
                if s3 < 0x80 \<or> 0xBF < s3 then (RuneError, 1)
                else
                  (int ((s0 mod 8) * 262144 + (s1 mod 64) * 4096
                        + (s2 mod 64) * 64 + s3 mod 64), 4))"

text \<open>
  \<open>utf8.AppendRune\<close> (what \<open>strings.Builder.WriteRune\<close> writes): the UTF-8 encoding of
  \<open>r\<close>; a negative rune, a surrogate and a rune beyond \<open>0x10FFFF\<close> are written as
  \<open>RuneError\<close>, the bytes \<open>EF BF BD\<close>.
\<close>

definition AppendRune :: "rune \<Rightarrow> string" where
  "AppendRune r =
     (if 0 \<le> r \<and> r \<le> 0x7F then [char_of r]
      else if 0 \<le> r \<and> r \<le> 0x7FF then
        [char_of (0xC0 + r div 64), char_of (0x80 + r mod 64)]
      else if r < 0 \<or> 0x10FFFF < r \<or> (0xD800 \<le> r \<and> r \<le> 0xDFFF) then
        [char_of (0xEF::nat), char_of (0xBF::nat), char_of (0xBD::nat)]
      else if r \<le> 0xFFFF then
        [char_of (0xE0 + r div 4096), char_of (0x80 + (r div 64) mod 64),
         char_of (0x80 + r mod 64)]
      else
        [char_of (0xF0 + r div 262144), char_of (0x80 + (r div 4096) mod 64),
         char_of (0x80 + (r div 64) mod 64), char_of (0x80 + r mod 64)])"

text \<open>What \<open>strings.Map\<close> writes for a mapped rune: nothing when it is negative.\<close>

definition emit :: "rune \<Rightarrow> string" where
  "emit r = (if r \<ge> 0 then AppendRune r else [])"

text \<open>
  \<open>strings.Map\<close> has two loops. The first one (\<open>strings_Map\<close>) keeps the bytes of the
  input as they are while the mapping leaves each rune alone; an invalid byte (decoded
  as \<open>RuneError\<close> of width 1) counts as changed. From the first changed rune on, the
  second loop (\<open>mapRest\<close>) writes the encoding of every mapped rune.
\<close>

function mapRest :: "(rune \<Rightarrow> rune) \<Rightarrow> string \<Rightarrow> string" where
  "mapRest mapping s =
     (if s = [] then []
      else
        let (c, width) = DecodeRuneInString s in
        emit (mapping c) @ mapRest mapping (drop width s))"
  by pat_completeness auto
termination
  by (relation "measure (\<lambda>(m, s). length s)")
     (auto simp: DecodeRuneInString_def Let_def split: if_splits prod.splits)

function strings_Map :: "(rune \<Rightarrow> rune) \<Rightarrow> string \<Rightarrow> string" where
  "strings_Map mapping s =
     (if s = [] then []
      else
        let (c, width) = DecodeRuneInString s; r = mapping c in
        if r = c \<and> (c \<noteq> RuneError \<or> width \<noteq> 1)
        then take width s @ strings_Map mapping (drop width s)
        else emit r @ mapRest mapping (drop width s))"
  by pat_completeness auto
termination
  by (relation "measure (\<lambda>(m, s). length s)")
     (auto simp: DecodeRuneInString_def Let_def split: if_splits prod.splits)

text \<open>
  \<open>sanitizeFilename\<close> of \<open>main.go\<close>, with its function literal named
  \<open>dropSeparator\<close>; \<open>CHR 0x5C\<close> is the backslash.
\<close>

definition dropSeparator :: "rune \<Rightarrow> rune" where
  "dropSeparator r =
     (if r = rune_of CHR ''/'' \<or> r = rune_of (CHR 0x5C) \<or> r = rune_of CHR '':''
      then - 1 else r)"

definition sanitizeFilename :: "string \<Rightarrow> string" where
  "sanitizeFilename name = strings_Map dropSeparator name"

text \<open>
  The three characters the sanitizer removes, and the strings that are valid UTF-8
  (\<open>utf8.ValidString\<close>): no decoding step yields \<open>RuneError\<close> of width 1.
\<close>

definition isSeparator :: "char \<Rightarrow> bool" where
  "isSeparator c = (c = CHR ''/'' \<or> c = CHR 0x5C \<or> c = CHR '':'')"

function ValidString :: "string \<Rightarrow> bool" where
  "ValidString s =
     (if s = [] then True
      else
        let (c, width) = DecodeRuneInString s in
        \<not> (c = RuneError \<and> width = 1) \<and> ValidString (drop width s))"
  by pat_completeness auto
termination
  by (relation "measure length")
     (auto simp: DecodeRuneInString_def Let_def split: if_splits prod.splits)

section \<open>Library functions on strings\<close>

text \<open>\<open>strings.HasPrefix\<close>, \<open>strings.Contains\<close> and \<open>strings.Join\<close>.\<close>

definition HasPrefix :: "string \<Rightarrow> string \<Rightarrow> bool" where
  "HasPrefix s prefix = (length prefix \<le> length s \<and> take (length prefix) s = prefix)"

fun Contains :: "string \<Rightarrow> string \<Rightarrow> bool" where
  "Contains [] substr = (substr = [])"
| "Contains (c # s) substr = (HasPrefix (c # s) substr \<or> Contains s substr)"

fun strings_Join :: "string list \<Rightarrow> string \<Rightarrow> string" where
  "strings_Join [] sep = []"
| "strings_Join [e] sep = e"
| "strings_Join (e # es) sep = e @ sep @ strings_Join es sep"

text \<open>
  Decimal digits of a number, as \<open>fmt.Sprintf("%d", n)\<close> prints a non-negative \<open>int\<close>
  and as the time formatter prints its fields.
\<close>

definition digitChar :: "nat \<Rightarrow> char" where
  "digitChar d = ''0123456789'' ! d"

fun digits :: "nat \<Rightarrow> string" where
  "digits n = (if n < 10 then [digitChar n] else digits (n div 10) @ [digitChar (n mod 10)])"

section \<open>Paths: \<open>path/filepath\<close> on Unix\<close>

text \<open>
  The service is built for Linux (the Dockerfile's Alpine image), where the only path
  separator is the slash. \<open>filepath.Clean\<close> reads the path element by element and
  keeps an output buffer with a mark \<open>dotdot\<close>, the end of the leading \<open>..\<close> elements
  that cannot be removed. Here the buffer is the number of those leading \<open>..\<close>
  elements and the list of the elements written after them: an empty element and \<open>.\<close>
  are skipped; \<open>..\<close> removes the last element written after the mark, or is dropped at
  the start of a rooted path, or is written and moves the mark; any other element is
  written. The empty result is \<open>.\<close>.
\<close>

fun splitSlash :: "string \<Rightarrow> string list" where
  "splitSlash [] = [[]]"
| "splitSlash (c # cs) =
     (if c = CHR ''/'' then [] # splitSlash cs
      else (case splitSlash cs of e # es \<Rightarrow> (c # e) # es | [] \<Rightarrow> [[c]]))"

fun cleanElems :: "bool \<Rightarrow> string list \<Rightarrow> nat \<times> string list \<Rightarrow> nat \<times> string list" where
  "cleanElems rooted [] buf = buf"
| "cleanElems rooted (e # es) (dotdot, out) =
     (if e = [] \<or> e = ''.'' then cleanElems rooted es (dotdot, out)
      else if e = ''..'' then
        (if out \<noteq> [] then cleanElems rooted es (dotdot, butlast out)
         else if \<not> rooted then cleanElems rooted es (dotdot + 1, [])
         else cleanElems rooted es (dotdot, out))
      else cleanElems rooted es (dotdot, out @ [e]))"

definition isRooted :: "string \<Rightarrow> bool" where
  "isRooted path = (path \<noteq> [] \<and> hd path = CHR ''/'')"

definition cleanBuf :: "string \<Rightarrow> nat \<times> string list" where
  "cleanBuf path = cleanElems (isRooted path) (splitSlash path) (0, [])"

definition renderPath :: "bool \<Rightarrow> nat \<times> string list \<Rightarrow> string" where
  "renderPath rooted buf =
     (let s = (if rooted then ''/'' else [])
                @ strings_Join (replicate (fst buf) ''..'' @ snd buf) ''/''
      in if s = [] then ''.'' else s)"

definition Clean :: "string \<Rightarrow> string" where
  "Clean path =
     (if path = [] then ''.'' else renderPath (isRooted path) (cleanBuf path))"

text \<open>\<open>filepath.Join\<close>: leading empty elements are ignored, the rest is joined and cleaned.\<close>

fun filepath_Join :: "string list \<Rightarrow> string" where
  "filepath_Join [] = []"
| "filepath_Join (e # es) =
     (if e = [] then filepath_Join es else Clean (strings_Join (e # es) ''/''))"

text \<open>
  A path lies within a root when, both cleaned, they are rooted alike, start with the
  same number of \<open>..\<close> elements, and the elements of the path continue those of the
  root.
\<close>

definition pathWithin :: "string \<Rightarrow> string \<Rightarrow> bool" where
  "pathWithin root path =
     (let r = cleanBuf root; q = cleanBuf path
      in isRooted root = isRooted path
         \<and> fst r = fst q
         \<and> take (length (snd r)) (snd q) = snd r)"

text \<open>
  A plain path element: not empty, not \<open>.\<close>, not \<open>..\<close>, and without a slash.
\<close>

definition plainElem :: "string \<Rightarrow> bool" where
  "plainElem e = (e \<noteq> [] \<and> e \<noteq> ''.'' \<and> e \<noteq> ''..'' \<and> CHR ''/'' \<notin> set e)"

section \<open>Time: the session identifier\<close>

text \<open>
  The fields of a \<open>time.Time\<close> that \<open>Format\<close> reads, and \<open>Format\<close> at the one layout the
  handler uses, \<open>"2006-01-02_15-04-05.000"\<close>: year, month, day, hour, minute and second
  zero-padded, and the first three digits of the nine-digit nanosecond.
\<close>

record gotime =
  Year :: int
  Month :: nat
  Day :: nat
  Hour :: nat
  Minute :: nat
  Second :: nat
  Nanosecond :: nat

definition appendInt :: "int \<Rightarrow> nat \<Rightarrow> string" where
  "appendInt x width =
     (let ds = digits (nat \<bar>x\<bar>)
      in (if x < 0 then ''-'' else []) @ replicate (width - length ds) CHR ''0'' @ ds)"

definition appendNano :: "nat \<Rightarrow> string" where
  "appendNano nanosec =
     (let b = appendInt (int nanosec) 9 in CHR ''.'' # take (length b - 6) b)"

definition Format :: "gotime \<Rightarrow> string" where
  "Format t =
     appendInt (Year t) 4 @ ''-'' @ appendInt (int (Month t)) 2 @ ''-''
       @ appendInt (int (Day t)) 2 @ ''_'' @ appendInt (int (Hour t)) 2 @ ''-''
       @ appendInt (int (Minute t)) 2 @ ''-'' @ appendInt (int (Second t)) 2
       @ appendNano (Nanosecond t)"

text \<open>The characters of a decimal number, and those of a formatted time.\<close>

definition stampChars :: "char set" where
  "stampChars = set ''0123456789''"

definition formatChars :: "char set" where
  "formatChars = set ''0123456789-._''"

section \<open>Errors\<close>

text \<open>
  A Go error as the handler looks at it: the two sentinels of package \<open>io\<close>, an error
  with a text only, and an error with a text that wraps another one (as
  \<open>fmt.Errorf("creating file: %w", err)\<close> in \<open>LocalStorage.SaveFile\<close>). \<open>err == io.EOF\<close>
  is equality with \<open>IoEOF\<close>; \<open>errors.Is\<close> follows the chain of wrapped errors.
\<close>

datatype goerror =
    IoEOF
  | IoErrUnexpectedEOF
  | ErrorString string
  | Wrap string goerror

fun Error :: "goerror \<Rightarrow> string" where
  "Error IoEOF = ''EOF''"
| "Error IoErrUnexpectedEOF = ''unexpected EOF''"
| "Error (ErrorString s) = s"
| "Error (Wrap s e) = s"

fun errors_Is :: "goerror \<Rightarrow> goerror \<Rightarrow> bool" where
  "errors_Is (Wrap s e) target = (Wrap s e = target \<or> errors_Is e target)"
| "errors_Is err target = (err = target)"

text \<open>The test the handler applies twice, to a read error and to the last error.\<close>

definition isUnexpectedEOF :: "goerror \<Rightarrow> bool" where
  "isUnexpectedEOF err =
     (errors_Is err IoErrUnexpectedEOF \<or> Contains (Error err) ''unexpected EOF'')"

section \<open>The upload handler\<close>

text \<open>
  What the handler reads of a request (\<open>r.Method\<close>, the headers \<open>Content-Type\<close> and
  \<open>X-Turnstile-Token\<close>, \<open>r.RemoteAddr\<close>) and what it writes: a status and a body.
  \<open>http.Error\<close> writes the message and a newline.
\<close>

record request =
  Method :: string
  ContentType :: string
  TurnstileToken :: string
  RemoteAddr :: string

record response =
  status :: nat
  body :: string

definition http_Error :: "string \<Rightarrow> nat \<Rightarrow> response" where
  "http_Error msg code = \<lparr>status = code, body = msg @ [CHR 0x0A]\<rparr>"

definition StatusCreated :: nat where "StatusCreated = 201"
definition StatusPartialContent :: nat where "StatusPartialContent = 206"
definition StatusBadRequest :: nat where "StatusBadRequest = 400"
definition StatusForbidden :: nat where "StatusForbidden = 403"
definition StatusMethodNotAllowed :: nat where "StatusMethodNotAllowed = 405"
definition StatusRequestTimeout :: nat where "StatusRequestTimeout = 408"

text \<open>
  A part of the multipart body as the handler sees it: \<open>FileName\<close> is the result of
  \<open>part.FileName()\<close> (the library has already applied \<open>filepath.Base\<close> to the header's
  value), \<open>content\<close> the bytes its reader delivers, and \<open>readErr\<close> the error the reader
  ends with when it does not end with \<open>io.EOF\<close>.
\<close>

record part =
  FileName :: string
  content :: string
  readErr :: "goerror option"

text \<open>
  One iteration of the loop, as the environment answers it: either the \<open>select\<close> finds
  \<open>ctx.Done()\<close> ready, or it does not and \<open>mr.NextPart()\<close> returns an error or a part.
\<close>

datatype step =
    CtxDone
  | NextPart "goerror + part"

text \<open>The calls the handler makes to its collaborators, in order.\<close>

datatype call =
    CallVerify string string
  | CallNextPart
  | CallSaveFile string part

text \<open>
  The collaborators of one request: \<open>mime.ParseMediaType\<close>, the Turnstile verifier
  (an error, or \<open>resp.Success\<close>), the clock, the answers of the context and of the
  multipart reader at the successive iterations, and the storage backend
  (\<open>storage.SaveFile\<close>, with the state of the backend passed through).
\<close>

record 'st world =
  ParseMediaType :: "string \<Rightarrow> goerror + (string \<times> (string \<rightharpoonup> string))"
  Verify :: "string \<Rightarrow> string \<Rightarrow> goerror + bool"
  Now :: gotime
  steps :: "step list"
  SaveFile :: "'st \<Rightarrow> string \<Rightarrow> part \<Rightarrow> goerror option \<times> 'st"
  storage :: 'st

text \<open>
  The variables of the session (\<open>saved\<close>, \<open>failed\<close>, \<open>lastError\<close>), with the calls made
  so far and the state of the backend. The counters are Go \<open>int\<close>s (64 bits); a run
  would need \<open>2^63\<close> iterations to overflow one, so they are natural numbers here.
\<close>

record 'st session =
  saved :: nat
  failed :: nat
  lastError :: "goerror option"
  calls :: "call list"
  store :: 'st

text \<open>
  How the loop ends: the deadline fired (the handler returns from inside the loop), the
  loop was left by \<open>break\<close>, or the answers given so far are used up and the loop is
  still running.
\<close>

datatype 'st outcome =
    Running "'st session"
  | TimedOut "'st session"
  | LoopExit "'st session"

fun loop ::
  "('st \<Rightarrow> string \<Rightarrow> part \<Rightarrow> goerror option \<times> 'st) \<Rightarrow> string \<Rightarrow> step list
     \<Rightarrow> 'st session \<Rightarrow> 'st outcome" where
  "loop save subfolder [] s = Running s"
| "loop save subfolder (CtxDone # rest) s = TimedOut s"
| "loop save subfolder (NextPart (Inl err) # rest) s =
     (let s1 = s\<lparr>calls := calls s @ [CallNextPart]\<rparr> in
      if err = IoEOF then LoopExit s1
      else
        let s2 = s1\<lparr>lastError := Some err\<rparr> in
        if isUnexpectedEOF err
        then loop save subfolder rest (s2\<lparr>failed := failed s2 + 1\<rparr>)
        else LoopExit s2)"
| "loop save subfolder (NextPart (Inr p) # rest) s =
     (let s1 = s\<lparr>calls := calls s @ [CallNextPart]\<rparr> in
      if FileName p = [] then loop save subfolder rest s1
      else
        let filename = filepath_Join [subfolder, sanitizeFilename (FileName p)];
            (err, st) = save (store s1) filename p;
            s2 = s1\<lparr>calls := calls s1 @ [CallSaveFile filename p], store := st\<rparr>
        in case err of
             Some e \<Rightarrow>
               loop save subfolder rest (s2\<lparr>failed := failed s2 + 1, lastError := Some e\<rparr>)
           | None \<Rightarrow> loop save subfolder rest (s2\<lparr>saved := saved s2 + 1\<rparr>))"

definition sessionOf :: "'st outcome \<Rightarrow> 'st session" where
  "sessionOf out = (case out of Running s \<Rightarrow> s | TimedOut s \<Rightarrow> s | LoopExit s \<Rightarrow> s)"

text \<open>
  The result of a run: the response (none while the loop is still running), the calls
  made, and the state of the backend.
\<close>

record 'st result =
  resp :: "response option"
  made :: "call list"
  stored :: 'st

definition finish :: "response option \<Rightarrow> 'st session \<Rightarrow> 'st result" where
  "finish r s = \<lparr>resp = r, made = calls s, stored = store s\<rparr>"

text \<open>The response on the deadline, and the response after the loop.\<close>

definition timeoutResponse :: "'st session \<Rightarrow> response" where
  "timeoutResponse s =
     (if saved s > 0 then
        \<lparr>status = StatusPartialContent,
         body = ''Upload partially completed: '' @ digits (saved s)
                  @ '' file(s) uploaded, '' @ digits (failed s) @ '' failed due to timeout''\<rparr>
      else http_Error ''Upload timed out'' StatusRequestTimeout)"

definition summaryResponse :: "'st session \<Rightarrow> response" where
  "summaryResponse s =
     (if saved s = 0 then
        (case lastError s of
           Some e \<Rightarrow>
             if isUnexpectedEOF e then
               http_Error
                 ''Upload failed due to connection issues. Please check your internet connection and try again.''
                 StatusBadRequest
             else http_Error (''Upload failed: '' @ Error e) StatusBadRequest
         | None \<Rightarrow> http_Error ''No files uploaded'' StatusBadRequest)
      else if failed s > 0 then
        \<lparr>status = StatusPartialContent,
         body = ''Partially successful: '' @ digits (saved s) @ '' file(s) uploaded, ''
                  @ digits (failed s) @ '' failed''\<rparr>
      else
        \<lparr>status = StatusCreated, body = ''Uploaded '' @ digits (saved s) @ '' file(s)''\<rparr>)"

definition newSession :: "call list \<Rightarrow> 'st \<Rightarrow> 'st session" where
  "newSession cs st = \<lparr>saved = 0, failed = 0, lastError = None, calls = cs, store = st\<rparr>"

definition uploadHandler :: "'st world \<Rightarrow> request \<Rightarrow> 'st result" where
  "uploadHandler w r =
     (if Method r \<noteq> ''POST'' then
        \<lparr>resp = Some (http_Error ''Only POST allowed'' StatusMethodNotAllowed),
         made = [], stored = storage w\<rparr>
      else
        case ParseMediaType w (ContentType r) of
          Inl err \<Rightarrow>
            \<lparr>resp = Some (http_Error ''Invalid Content-Type'' StatusBadRequest),
             made = [], stored = storage w\<rparr>
        | Inr (mediaType, params) \<Rightarrow>
            if \<not> HasPrefix mediaType ''multipart/'' then
              \<lparr>resp = Some (http_Error ''Invalid Content-Type'' StatusBadRequest),
               made = [], stored = storage w\<rparr>
            else
              let verified = Verify w (TurnstileToken r) (RemoteAddr r);
                  cs = [CallVerify (TurnstileToken r) (RemoteAddr r)]
              in if (case verified of Inl err \<Rightarrow> True | Inr success \<Rightarrow> \<not> success) then
                   \<lparr>resp = Some (http_Error ''CAPTCHA verification failed'' StatusForbidden),
                    made = cs, stored = storage w\<rparr>
                 else
                   let subfolder = Format (Now w) in
                   case loop (SaveFile w) subfolder (steps w) (newSession cs (storage w)) of
                     Running s \<Rightarrow> finish None s
                   | TimedOut s \<Rightarrow> finish (Some (timeoutResponse s)) s
                   | LoopExit s \<Rightarrow> finish (Some (summaryResponse s)) s)"

section \<open>Storage backends\<close>

text \<open>
  \<open>LocalStorage.SaveFile\<close> creates the file at \<open>filepath.Join(l.BasePath, name)\<close>; that
  path is all the claims about it need. \<open>S3Storage.SaveFile\<close> uploads under the key
  \<open>strings.TrimPrefix(s.Prefix + "/" + name, "/")\<close>.
\<close>

record LocalStorage =
  BasePath :: string

definition fullPath :: "LocalStorage \<Rightarrow> string \<Rightarrow> string" where
  "fullPath l name = filepath_Join [BasePath l, name]"

text \<open>
  \<open>MockStorage\<close> of \<open>main_test.go\<close>: it fails with \<open>saveErr\<close> for the name \<open>failOn\<close> and
  otherwise reads the whole stream and keeps it under the name.
\<close>

record MockStorage =
  files :: "string \<rightharpoonup> string"
  failOn :: string
  saveErr :: "goerror option"

definition MockStorage_SaveFile ::
  "MockStorage \<Rightarrow> string \<Rightarrow> part \<Rightarrow> goerror option \<times> MockStorage" where
  "MockStorage_SaveFile m name data =
     (if name = failOn m then (saveErr m, m)
      else
        case readErr data of
          Some err \<Rightarrow> (Some err, m)
        | None \<Rightarrow> (None, m\<lparr>files := (files m)(name \<mapsto> content data)\<rparr>))"

section \<open>The response table of the specification\<close>

text \<open>
  The table of the specification's step 6, row by row, over whether the deadline has
  elapsed, the two counters and the last error; no response where no row applies.
\<close>

definition droppedConnection :: "goerror option \<Rightarrow> bool" where
  "droppedConnection lastErr = (case lastErr of Some e \<Rightarrow> isUnexpectedEOF e | None \<Rightarrow> False)"

definition errorText :: "goerror option \<Rightarrow> string" where
  "errorText lastErr = (case lastErr of Some e \<Rightarrow> Error e | None \<Rightarrow> [])"

definition step6 :: "bool \<Rightarrow> nat \<Rightarrow> nat \<Rightarrow> goerror option \<Rightarrow> response option" where
  "step6 deadline nsaved nfailed lastErr =
     (if deadline \<and> nsaved > 0 then
        Some \<lparr>status = 206,
              body = ''Upload partially completed: '' @ digits nsaved
                       @ '' file(s) uploaded, '' @ digits nfailed @ '' failed due to timeout''\<rparr>
      else if deadline \<and> nsaved = 0 then
        Some \<lparr>status = 408, body = ''Upload timed out'' @ [CHR 0x0A]\<rparr>
      else if nsaved = 0 \<and> nfailed = 0 \<and> lastErr = None then
        Some \<lparr>status = 400, body = ''No files uploaded'' @ [CHR 0x0A]\<rparr>
      else if nsaved = 0 \<and> lastErr \<noteq> None \<and> droppedConnection lastErr then
        Some \<lparr>status = 400,
              body = ''Upload failed due to connection issues. Please check your internet connection and try again.''
                       @ [CHR 0x0A]\<rparr>
      else if nsaved = 0 \<and> lastErr \<noteq> None then
        Some \<lparr>status = 400, body = ''Upload failed: '' @ errorText lastErr @ [CHR 0x0A]\<rparr>
      else if nsaved > 0 \<and> nfailed > 0 then
        Some \<lparr>status = 206,
              body = ''Partially successful: '' @ digits nsaved @ '' file(s) uploaded, ''
                       @ digits nfailed @ '' failed''\<rparr>
      else if nsaved > 0 \<and> nfailed = 0 then
        Some \<lparr>status = 201, body = ''Uploaded '' @ digits nsaved @ '' file(s)''\<rparr>
      else None)"

text \<open>The answers that end the loop: the deadline, \<open>io.EOF\<close>, and a read error that is
  not an unexpected end of data.\<close>

fun endsLoop :: "step \<Rightarrow> bool" where
  "endsLoop CtxDone = True"
| "endsLoop (NextPart (Inl err)) = (err = IoEOF \<or> \<not> isUnexpectedEOF err)"
| "endsLoop (NextPart (Inr p)) = False"

text \<open>
  What the loop has seen in a list of answers: the parts with a non-empty filename, and
  the read errors that denote an unexpected end of data.
\<close>

fun namedParts :: "step list \<Rightarrow> nat" where
  "namedParts [] = 0"
| "namedParts (NextPart (Inr p) # rest) =
     (if FileName p \<noteq> [] then 1 else 0) + namedParts rest"
| "namedParts (x # rest) = namedParts rest"

fun interruptions :: "step list \<Rightarrow> nat" where
  "interruptions [] = 0"
| "interruptions (NextPart (Inl err) # rest) =
     (if err \<noteq> IoEOF \<and> isUnexpectedEOF err then 1 else 0) + interruptions rest"
| "interruptions (x # rest) = interruptions rest"

section \<open>A concrete world\<close>

text \<open>
  A request as the tests build it, a clock reading, the answers of
  \<open>mime.ParseMediaType\<close> at the content types used below, a verifier that accepts one
  token, and a \<open>MockStorage\<close> that fails on \<open>fail.txt\<close> of the session.
\<close>

definition exampleNow :: gotime where
  "exampleNow = \<lparr>Year = 2025, Month = 7, Day = 4, Hour = 9, Minute = 5, Second = 3,
                  Nanosecond = 42000000\<rparr>"

definition exampleParse :: "string \<Rightarrow> goerror + (string \<times> (string \<rightharpoonup> string))" where
  "exampleParse v =
     (if v = ''multipart/form-data; boundary=x''
      then Inr (''multipart/form-data'', [''boundary'' \<mapsto> ''x''])
      else if v = ''multipart/form-data'' then Inr (''multipart/form-data'', Map.empty)
      else if v = ''text/plain'' then Inr (''text/plain'', Map.empty)
      else Inl (ErrorString ''mime: no media type''))"

definition exampleStorage :: MockStorage where
  "exampleStorage = \<lparr>files = Map.empty, failOn = ''2025-07-04_09-05-03.042/fail.txt'',
                      saveErr = Some IoErrUnexpectedEOF\<rparr>"

definition exampleWorld :: "step list \<Rightarrow> MockStorage world" where
  "exampleWorld xs =
     \<lparr>ParseMediaType = exampleParse,
      Verify = (\<lambda>token addr. Inr (token = ''valid-token'')),
      Now = exampleNow,
      steps = xs,
      SaveFile = MockStorage_SaveFile,
      storage = exampleStorage\<rparr>"

definition examplePost :: request where
  "examplePost = \<lparr>Method = ''POST'', ContentType = ''multipart/form-data; boundary=x'',
                   TurnstileToken = ''valid-token'', RemoteAddr = ''192.0.2.1:4711''\<rparr>"

definition filePart :: "string \<Rightarrow> string \<Rightarrow> part" where
  "filePart name bytes = \<lparr>FileName = name, content = bytes, readErr = None\<rparr>"

definition twoFiles :: "step list" where
  "twoFiles = [NextPart (Inr (filePart ''success.txt'' ''success content'')),
               NextPart (Inr (filePart ''fail.txt'' ''fail content'')),
               NextPart (Inl IoEOF)]"

section \<open>What the calls of a run look like\<close>

text \<open>
  Predicates on the calls a run has made: a call of the verifier; a sanitized filename
  that \<open>filepath.Join\<close> does not keep as an element of its own; a save whose name is
  the session identifier joined with the sanitized filename of its part.
\<close>

fun isVerifyCall :: "call \<Rightarrow> bool" where
  "isVerifyCall (CallVerify token addr) = True"
| "isVerifyCall c = False"

fun isSaveCall :: "call \<Rightarrow> bool" where
  "isSaveCall (CallSaveFile name p) = True"
| "isSaveCall c = False"

definition degenerate :: "string \<Rightarrow> bool" where
  "degenerate e = (e = [] \<or> e = ''.'' \<or> e = ''..'')"

fun joinedName :: "string \<Rightarrow> call \<Rightarrow> bool" where
  "joinedName sub (CallSaveFile name p) =
     (name = filepath_Join [sub, sanitizeFilename (FileName p)])"
| "joinedName sub c = True"

section \<open>What the loop has counted when it ends\<close>

text \<open>
  The outcome of every part and read error the loop meets, in order, told from the
  answers of the reader and of the backend alone: \<open>None\<close> for a part that was saved,
  the error for a part whose save failed and for a read error. A part without a
  filename has no outcome. The state of the backend is passed from save to save.
\<close>

fun outcomes ::
  "('st \<Rightarrow> string \<Rightarrow> part \<Rightarrow> goerror option \<times> 'st) \<Rightarrow> string \<Rightarrow> step list \<Rightarrow> 'st
     \<Rightarrow> goerror option list" where
  "outcomes save sub [] st = []"
| "outcomes save sub (CtxDone # xs) st = outcomes save sub xs st"
| "outcomes save sub (NextPart (Inl err) # xs) st = Some err # outcomes save sub xs st"
| "outcomes save sub (NextPart (Inr p) # xs) st =
     (if FileName p = [] then outcomes save sub xs st
      else
        let (err, st') = save st (filepath_Join [sub, sanitizeFilename (FileName p)]) p
        in err # outcomes save sub xs st')"

definition savedCount :: "goerror option list \<Rightarrow> nat" where
  "savedCount ev = length (filter (\<lambda>out. out = None) ev)"

definition failedCount :: "goerror option list \<Rightarrow> nat" where
  "failedCount ev = length (filter (\<lambda>out. out \<noteq> None) ev)"

fun lastFailure :: "goerror option list \<Rightarrow> goerror option" where
  "lastFailure [] = None"
| "lastFailure (out # ev) = (case lastFailure ev of Some e \<Rightarrow> Some e | None \<Rightarrow> out)"

definition beforeEnd :: "step list \<Rightarrow> step list" where
  "beforeEnd xs = takeWhile (\<lambda>x. \<not> endsLoop x) xs"

fun finalError :: "goerror option list \<Rightarrow> step \<Rightarrow> goerror option" where
  "finalError ev (NextPart (Inl err)) = (if err = IoEOF then lastFailure ev else Some err)"
| "finalError ev x = lastFailure ev"

text \<open>
  The error a session holds after a new outcome: a later error replaces the one
  recorded before. The answers before the one that ends the loop, the last error
  when the loop has ended on an answer (or is still running), and how the loop ended.
\<close>

definition recorded :: "goerror option \<Rightarrow> goerror option \<Rightarrow> goerror option" where
  "recorded before new = (case new of Some e \<Rightarrow> Some e | None \<Rightarrow> before)"

fun errorAtEnd :: "goerror option list \<Rightarrow> step option \<Rightarrow> goerror option" where
  "errorAtEnd ev None = lastFailure ev"
| "errorAtEnd ev (Some x) = finalError ev x"

definition endKind :: "'st outcome \<Rightarrow> step option \<Rightarrow> bool" where
  "endKind out e =
     (case e of
        None \<Rightarrow> (\<exists>s'. out = Running s')
      | Some x \<Rightarrow> if x = CtxDone then (\<exists>s'. out = TimedOut s') else (\<exists>s'. out = LoopExit s'))"

text \<open>
  The saves a run requests, told from the answers of the reader alone: one for every
  part with a filename, in order, under the session identifier joined with the
  sanitized filename, and with the part itself as the stream.
\<close>

fun expectedSaves :: "string \<Rightarrow> step list \<Rightarrow> call list" where
  "expectedSaves sub [] = []"
| "expectedSaves sub (NextPart (Inr p) # xs) =
     (if FileName p = [] then expectedSaves sub xs
      else CallSaveFile (filepath_Join [sub, sanitizeFilename (FileName p)]) p
             # expectedSaves sub xs)"
| "expectedSaves sub (x # xs) = expectedSaves sub xs"

section \<open>Properties of the UTF-8 functions\<close>

text \<open>
  The recursive equations of the string functions are unfolded by hand below, one
  decoding step at a time.
\<close>

declare mapRest.simps [simp del] strings_Map.simps [simp del] ValidString.simps [simp del]
  digits.simps [simp del]

lemma byte_lt_256: "byte c < 256"
  by (simp add: byte_def)

lemma char_of_int_byte: "char_of (int (byte c)) = c"
  by (simp add: byte_def)

lemma Decode_nil: "DecodeRuneInString [] = (RuneError, 0)"
  by (simp add: DecodeRuneInString_def)

lemma Decode_width_cases:
  assumes "DecodeRuneInString s = (c, w)" "s \<noteq> []"
  shows "w = 1 \<or> w = 2 \<or> w = 3 \<or> w = 4"
  using assms
  by (auto simp: DecodeRuneInString_def Let_def split: if_splits prod.splits)

lemma Decode_width_le:
  assumes "DecodeRuneInString s = (c, w)"
  shows "w \<le> length s"
  using assms
  apply (cases s)
  apply (simp add: Decode_nil)
  apply (auto simp: DecodeRuneInString_def Let_def first_def acceptRanges_def Suc_le_eq split: if_splits prod.splits)
  done

lemma Decode_ascii:
  assumes "byte c0 < 0x80"
  shows "DecodeRuneInString (c0 # t) = (int (byte c0), 1)"
  using assms by (simp add: DecodeRuneInString_def Let_def first_def)

lemma Decode_nonascii_1:
  assumes "DecodeRuneInString (c0 # t) = (c, 1)" "\<not> byte c0 < 0x80"
  shows "c = RuneError"
  using assms
  by (auto simp: DecodeRuneInString_def Let_def first_def split: if_splits prod.splits)

lemma Decode_2:
  assumes "DecodeRuneInString s = (c, 2)"
  shows "\<exists>c0 c1 t. s = c0 # c1 # t \<and> 0xC2 \<le> byte c0 \<and> byte c0 < 0xE0
           \<and> 0x80 \<le> byte c1 \<and> byte c1 \<le> 0xBF
           \<and> c = int ((byte c0 mod 32) * 64 + byte c1 mod 64)"
proof -
  from assms Decode_width_le have "2 \<le> length s" by blast
  then obtain c0 c1 t where s: "s = c0 # c1 # t"
    by (cases s; cases "tl s") auto
  show ?thesis using assms unfolding s
    by (auto simp: DecodeRuneInString_def Let_def first_def acceptRanges_def split: if_splits prod.splits)
qed


lemma Decode_3:
  assumes "DecodeRuneInString s = (c, 3)"
  shows "\<exists>c0 c1 c2 t. s = c0 # c1 # c2 # t \<and> 0xE0 \<le> byte c0 \<and> byte c0 < 0xF0
           \<and> (if byte c0 = 0xE0 then 0xA0 else 0x80) \<le> byte c1
           \<and> byte c1 \<le> (if byte c0 = 0xED then 0x9F else 0xBF)
           \<and> 0x80 \<le> byte c2 \<and> byte c2 \<le> 0xBF
           \<and> c = int ((byte c0 mod 16) * 4096 + (byte c1 mod 64) * 64 + byte c2 mod 64)"
proof -
  from assms Decode_width_le have "3 \<le> length s" by blast
  then obtain c0 c1 c2 t where s: "s = c0 # c1 # c2 # t"
    by (cases s; cases "tl s"; cases "tl (tl s)") auto
  show ?thesis using assms unfolding s
    by (auto simp: DecodeRuneInString_def Let_def first_def acceptRanges_def split: if_splits prod.splits)
qed

lemma Decode_4:
  assumes "DecodeRuneInString s = (c, 4)"
  shows "\<exists>c0 c1 c2 c3 t. s = c0 # c1 # c2 # c3 # t \<and> 0xF0 \<le> byte c0 \<and> byte c0 \<le> 0xF4
           \<and> (if byte c0 = 0xF0 then 0x90 else 0x80) \<le> byte c1
           \<and> byte c1 \<le> (if byte c0 = 0xF4 then 0x8F else 0xBF)
           \<and> 0x80 \<le> byte c2 \<and> byte c2 \<le> 0xBF
           \<and> 0x80 \<le> byte c3 \<and> byte c3 \<le> 0xBF
           \<and> c = int ((byte c0 mod 8) * 262144 + (byte c1 mod 64) * 4096
                          + (byte c2 mod 64) * 64 + byte c3 mod 64)"
proof -
  from assms Decode_width_le have "4 \<le> length s" by blast
  then obtain c0 c1 c2 c3 t where s: "s = c0 # c1 # c2 # c3 # t"
    by (cases s; cases "tl s"; cases "tl (tl s)"; cases "tl (tl (tl s))") auto
  show ?thesis using assms unfolding s
    by (auto simp: DecodeRuneInString_def Let_def first_def acceptRanges_def split: if_splits prod.splits)
qed

lemma mod_shift:
  fixes b k m :: nat
  assumes "m * k \<le> b" "b < m * k + k"
  shows "b mod k = b - m * k"
proof -
  obtain h where h: "b = m * k + h" using assms(1) by (metis le_Suc_ex)
  with assms(2) have "h < k" by simp
  then show ?thesis unfolding h by simp
qed

lemma pack_div:
  fixes a b k :: nat
  assumes "b < k"
  shows "(a * k + b) div k = a" and "(a * k + b) mod k = b"
  using assms by simp_all

lemma char_of_int_add:
  fixes k n :: nat
  shows "char_of (int k + int n) = char_of (k + n)"
  by (simp only: of_nat_add [symmetric] char_of_nat)

lemma AppendRune_2:
  fixes h l :: nat
  assumes "2 \<le> h" "h < 32" "l < 64"
  shows "AppendRune (int (h * 64 + l)) = [char_of (0xC0 + h), char_of (0x80 + l)]"
proof -
  define c where "c = h * 64 + l"
  have d: "c div 64 = h" "c mod 64 = l"
    unfolding c_def using pack_div[OF assms(3), of h] by simp_all
  have lo: "128 \<le> c" using assms unfolding c_def by simp
  have hi: "c \<le> 2047" using assms unfolding c_def by simp
  have "int (c div 64) = int h" "int (c mod 64) = int l" using d by simp_all
  then have i: "int c div 64 = int h" "int c mod 64 = int l"
    by (simp_all add: zdiv_int zmod_int)
  have r: "\<not> (int c \<le> 0x7F)" "0 \<le> int c" "int c \<le> 0x7FF" using lo hi by simp_all
  have e0: "char_of (0xC0 + int h) = char_of (0xC0 + h)"
    using char_of_int_add[of 192 h] by simp
  have e1: "char_of (0x80 + int l) = char_of (0x80 + l)"
    using char_of_int_add[of 128 l] by simp
  have "AppendRune (int c) = [char_of (0xC0 + int c div 64), char_of (0x80 + int c mod 64)]"
    unfolding AppendRune_def using r by (simp only: if_False if_True simp_thms)
  then show ?thesis
    unfolding c_def[symmetric] by (simp only: i e0 e1)
qed

lemma AppendRune_3:
  fixes h m l :: nat
  assumes "h < 16" "m < 64" "l < 64" "1 \<le> h \<or> 32 \<le> m" "h \<noteq> 13 \<or> m < 32"
  shows "AppendRune (int (h * 4096 + m * 64 + l))
           = [char_of (0xE0 + h), char_of (0x80 + m), char_of (0x80 + l)]"
proof -
  define c where "c = h * 4096 + m * 64 + l"
  have c64: "c = (h * 64 + m) * 64 + l" unfolding c_def by simp
  have ml: "m * 64 + l < 4096" using assms by simp
  have d0: "c div 4096 = h"
    using pack_div(1)[OF ml, of h] by (simp only: c_def add.assoc)
  have "c div 64 = h * 64 + m" using pack_div(1)[OF assms(3), of "h * 64 + m"] by (simp only: c64)
  then have d1: "(c div 64) mod 64 = m" using pack_div(2)[OF assms(2), of h] by (simp only:)
  have d2: "c mod 64 = l" using pack_div(2)[OF assms(3), of "h * 64 + m"] by (simp only: c64)
  have lo: "2048 \<le> c" using assms(4) unfolding c_def by auto
  have hi: "c \<le> 65535" using assms(1,2,3) unfolding c_def by simp
  have sur: "c < 55296 \<or> 57343 < c"
  proof (cases "h = 13")
    case True
    with assms(5) have "m < 32" by simp
    with True assms(3) show ?thesis unfolding c_def by simp
  next
    case False
    then have "h < 13 \<or> 14 \<le> h" by auto
    then show ?thesis using assms(2,3) unfolding c_def by auto
  qed
  have "int (c div 4096) = int h" "int ((c div 64) mod 64) = int m" "int (c mod 64) = int l"
    using d0 d1 d2 by simp_all
  then have i: "int c div 4096 = int h" "(int c div 64) mod 64 = int m" "int c mod 64 = int l"
    by (simp_all add: zdiv_int zmod_int)
  have r: "\<not> (int c \<le> 0x7F)" "0 \<le> int c" "\<not> (int c \<le> 0x7FF)" "\<not> int c < 0"
     "\<not> 0x10FFFF < int c" "\<not> (0xD800 \<le> int c \<and> int c \<le> 0xDFFF)" "int c \<le> 0xFFFF"
    using lo hi sur by auto
  have e0: "char_of (0xE0 + int h) = char_of (0xE0 + h)"
    using char_of_int_add[of 224 h] by simp
  have e1: "char_of (0x80 + int m) = char_of (0x80 + m)"
    using char_of_int_add[of 128 m] by simp
  have e2: "char_of (0x80 + int l) = char_of (0x80 + l)"
    using char_of_int_add[of 128 l] by simp
  have "AppendRune (int c) = [char_of (0xE0 + int c div 4096),
          char_of (0x80 + (int c div 64) mod 64), char_of (0x80 + int c mod 64)]"
    unfolding AppendRune_def using r by (simp only: if_False if_True simp_thms)
  then show ?thesis
    unfolding c_def[symmetric] by (simp only: i e0 e1 e2)
qed

lemma AppendRune_4:
  fixes h m n l :: nat
  assumes "h \<le> 4" "m < 64" "n < 64" "l < 64" "1 \<le> h \<or> 16 \<le> m" "h \<noteq> 4 \<or> m < 16"
  shows "AppendRune (int (h * 262144 + m * 4096 + n * 64 + l))
           = [char_of (0xF0 + h), char_of (0x80 + m), char_of (0x80 + n), char_of (0x80 + l)]"
proof -
  define c where "c = h * 262144 + m * 4096 + n * 64 + l"
  have c64: "c = ((h * 64 + m) * 64 + n) * 64 + l" unfolding c_def by simp
  have c4096: "c = (h * 64 + m) * 4096 + (n * 64 + l)" unfolding c_def by simp
  have c262144: "c = h * 262144 + (m * 4096 + n * 64 + l)" unfolding c_def by simp
  have nl: "n * 64 + l < 4096" using assms by simp
  have mnl: "m * 4096 + n * 64 + l < 262144" using assms by simp
  have d0: "c div 262144 = h"
    using pack_div(1)[OF mnl, of h] by (simp only: c262144)
  have "c div 4096 = h * 64 + m"
    using pack_div(1)[OF nl, of "h * 64 + m"] by (simp only: c4096)
  then have d1: "(c div 4096) mod 64 = m" using pack_div(2)[OF assms(2), of h] by (simp only:)
  have "c div 64 = (h * 64 + m) * 64 + n"
    using pack_div(1)[OF assms(4), of "(h * 64 + m) * 64 + n"] by (simp only: c64)
  then have d2: "(c div 64) mod 64 = n"
    using pack_div(2)[OF assms(3), of "h * 64 + m"] by (simp only:)
  have d3: "c mod 64 = l"
    using pack_div(2)[OF assms(4), of "(h * 64 + m) * 64 + n"] by (simp only: c64)
  have lo: "65536 \<le> c" using assms(5) unfolding c_def by auto
  have hi: "c \<le> 1114111"
  proof (cases "h = 4")
    case True
    with assms(6) have "m < 16" by simp
    with True assms(3,4) show ?thesis unfolding c_def by simp
  next
    case False
    with assms(1) have "h \<le> 3" by simp
    then show ?thesis using assms(2,3,4) unfolding c_def by simp
  qed
  have "int (c div 262144) = int h" "int ((c div 4096) mod 64) = int m"
       "int ((c div 64) mod 64) = int n" "int (c mod 64) = int l"
    using d0 d1 d2 d3 by simp_all
  then have i: "int c div 262144 = int h" "(int c div 4096) mod 64 = int m"
       "(int c div 64) mod 64 = int n" "int c mod 64 = int l"
    by (simp_all add: zdiv_int zmod_int)
  have r: "\<not> (int c \<le> 0x7F)" "0 \<le> int c" "\<not> (int c \<le> 0x7FF)" "\<not> int c < 0"
     "\<not> 0x10FFFF < int c" "\<not> (0xD800 \<le> int c \<and> int c \<le> 0xDFFF)" "\<not> int c \<le> 0xFFFF"
    using lo hi by auto
  have e0: "char_of (0xF0 + int h) = char_of (0xF0 + h)"
    using char_of_int_add[of 240 h] by simp
  have e1: "char_of (0x80 + int m) = char_of (0x80 + m)"
    using char_of_int_add[of 128 m] by simp
  have e2: "char_of (0x80 + int n) = char_of (0x80 + n)"
    using char_of_int_add[of 128 n] by simp
  have e3: "char_of (0x80 + int l) = char_of (0x80 + l)"
    using char_of_int_add[of 128 l] by simp
  have "AppendRune (int c) = [char_of (0xF0 + int c div 262144),
          char_of (0x80 + (int c div 4096) mod 64),
          char_of (0x80 + (int c div 64) mod 64), char_of (0x80 + int c mod 64)]"
    unfolding AppendRune_def using r by (simp only: if_False if_True simp_thms)
  then show ?thesis
    unfolding c_def[symmetric] by (simp only: i e0 e1 e2 e3)
qed

lemma AppendRune_ascii:
  assumes "byte c < 0x80"
  shows "AppendRune (int (byte c)) = [c]"
  using assms by (simp add: AppendRune_def byte_def)

lemma char_of_byte: "char_of (byte c) = c"
  by (simp add: byte_def)

lemma Decode_valid_1:
  assumes "DecodeRuneInString s = (c, 1)" "s \<noteq> []" "c \<noteq> RuneError"
  shows "AppendRune c = take 1 s \<and> c = int (byte (hd s)) \<and> byte (hd s) < 0x80"
proof -
  obtain c0 t where s: "s = c0 # t" using assms(2) by (cases s) auto
  have a: "byte c0 < 0x80" using Decode_nonascii_1[of c0 t c] assms(1,3) unfolding s by blast
  from Decode_ascii[OF a, of t] assms(1) have "c = int (byte c0)" unfolding s by simp
  then show ?thesis using a AppendRune_ascii[OF a] unfolding s by simp
qed

lemma Decode_valid_2:
  assumes "DecodeRuneInString s = (c, 2)"
  shows "AppendRune c = take 2 s \<and> 0x80 \<le> c \<and> (\<forall>b \<in> set (take 2 s). 0x80 \<le> byte b)"
proof -
  from Decode_2[OF assms] obtain c0 c1 t where s: "s = c0 # c1 # t"
    and r0: "0xC2 \<le> byte c0" "byte c0 < 0xE0" and r1: "0x80 \<le> byte c1" "byte c1 \<le> 0xBF"
    and c: "c = int ((byte c0 mod 32) * 64 + byte c1 mod 64)" by blast
  define h where "h = byte c0 - 192"
  define l where "l = byte c1 - 128"
  have hm: "byte c0 mod 32 = h" using mod_shift[of 6 32 "byte c0"] r0 by (simp add: h_def)
  have lm: "byte c1 mod 64 = l" using mod_shift[of 2 64 "byte c1"] r1 by (simp add: l_def)
  have hb: "2 \<le> h" "h < 32" "192 + h = byte c0" using r0 by (simp_all add: h_def)
  have lb: "l < 64" "128 + l = byte c1" using r1 by (simp_all add: l_def)
  have "AppendRune c = [char_of (192 + h), char_of (128 + l)]"
    unfolding c hm lm using AppendRune_2[OF hb(1,2) lb(1)] by simp
  then have "AppendRune c = [c0, c1]" by (simp only: hb lb char_of_byte)
  moreover have "128 \<le> c" unfolding c hm lm using hb(1) by simp
  ultimately show ?thesis using r0 r1 unfolding s by simp
qed

lemma Decode_valid_3:
  assumes "DecodeRuneInString s = (c, 3)"
  shows "AppendRune c = take 3 s \<and> 0x80 \<le> c \<and> (\<forall>b \<in> set (take 3 s). 0x80 \<le> byte b)"
proof -
  from Decode_3[OF assms] obtain c0 c1 c2 t where s: "s = c0 # c1 # c2 # t"
    and r0: "0xE0 \<le> byte c0" "byte c0 < 0xF0"
    and r1: "(if byte c0 = 0xE0 then 0xA0 else 0x80) \<le> byte c1"
            "byte c1 \<le> (if byte c0 = 0xED then 0x9F else 0xBF)"
    and r2: "0x80 \<le> byte c2" "byte c2 \<le> 0xBF"
    and c: "c = int ((byte c0 mod 16) * 4096 + (byte c1 mod 64) * 64 + byte c2 mod 64)"
    by blast
  have r1': "0x80 \<le> byte c1" "byte c1 \<le> 0xBF" using r1 by (auto split: if_splits)
  define h where "h = byte c0 - 224"
  define m where "m = byte c1 - 128"
  define l where "l = byte c2 - 128"
  have hm: "byte c0 mod 16 = h" using mod_shift[of 14 16 "byte c0"] r0 by (simp add: h_def)
  have mm: "byte c1 mod 64 = m" using mod_shift[of 2 64 "byte c1"] r1' by (simp add: m_def)
  have lm: "byte c2 mod 64 = l" using mod_shift[of 2 64 "byte c2"] r2 by (simp add: l_def)
  have hb: "h < 16" "224 + h = byte c0" using r0 by (simp_all add: h_def)
  have mb: "m < 64" "128 + m = byte c1" using r1' by (simp_all add: m_def)
  have lb: "l < 64" "128 + l = byte c2" using r2 by (simp_all add: l_def)
  have lo: "1 \<le> h \<or> 32 \<le> m" using r0 r1(1) by (auto simp: h_def m_def split: if_splits)
  have su: "h \<noteq> 13 \<or> m < 32" using r0 r1(2) by (auto simp: h_def m_def split: if_splits)
  have "AppendRune c = [char_of (224 + h), char_of (128 + m), char_of (128 + l)]"
    unfolding c hm mm lm using AppendRune_3[OF hb(1) mb(1) lb(1) lo su] by simp
  then have "AppendRune c = [c0, c1, c2]" by (simp only: hb mb lb char_of_byte)
  moreover have "128 \<le> c" unfolding c hm mm lm using lo by auto
  ultimately show ?thesis using r0 r1' r2 unfolding s by simp
qed

lemma Decode_valid_4:
  assumes "DecodeRuneInString s = (c, 4)"
  shows "AppendRune c = take 4 s \<and> 0x80 \<le> c \<and> (\<forall>b \<in> set (take 4 s). 0x80 \<le> byte b)"
proof -
  from Decode_4[OF assms] obtain c0 c1 c2 c3 t where s: "s = c0 # c1 # c2 # c3 # t"
    and r0: "0xF0 \<le> byte c0" "byte c0 \<le> 0xF4"
    and r1: "(if byte c0 = 0xF0 then 0x90 else 0x80) \<le> byte c1"
            "byte c1 \<le> (if byte c0 = 0xF4 then 0x8F else 0xBF)"
    and r2: "0x80 \<le> byte c2" "byte c2 \<le> 0xBF"
    and r3: "0x80 \<le> byte c3" "byte c3 \<le> 0xBF"
    and c: "c = int ((byte c0 mod 8) * 262144 + (byte c1 mod 64) * 4096
                      + (byte c2 mod 64) * 64 + byte c3 mod 64)"
    by blast
  have r1': "0x80 \<le> byte c1" "byte c1 \<le> 0xBF" using r1 by (auto split: if_splits)
  define h where "h = byte c0 - 240"
  define m where "m = byte c1 - 128"
  define n where "n = byte c2 - 128"
  define l where "l = byte c3 - 128"
  have hm: "byte c0 mod 8 = h" using mod_shift[of 30 8 "byte c0"] r0 by (simp add: h_def)
  have mm: "byte c1 mod 64 = m" using mod_shift[of 2 64 "byte c1"] r1' by (simp add: m_def)
  have nm: "byte c2 mod 64 = n" using mod_shift[of 2 64 "byte c2"] r2 by (simp add: n_def)
  have lm: "byte c3 mod 64 = l" using mod_shift[of 2 64 "byte c3"] r3 by (simp add: l_def)
  have hb: "h \<le> 4" "240 + h = byte c0" using r0 by (simp_all add: h_def)
  have mb: "m < 64" "128 + m = byte c1" using r1' by (simp_all add: m_def)
  have nb: "n < 64" "128 + n = byte c2" using r2 by (simp_all add: n_def)
  have lb: "l < 64" "128 + l = byte c3" using r3 by (simp_all add: l_def)
  have lo: "1 \<le> h \<or> 16 \<le> m" using r0 r1(1) by (auto simp: h_def m_def split: if_splits)
  have hi: "h \<noteq> 4 \<or> m < 16" using r0 r1(2) by (auto simp: h_def m_def split: if_splits)
  have "AppendRune c = [char_of (240 + h), char_of (128 + m), char_of (128 + n), char_of (128 + l)]"
    unfolding c hm mm nm lm using AppendRune_4[OF hb(1) mb(1) nb(1) lb(1) lo hi] by simp
  then have "AppendRune c = [c0, c1, c2, c3]" by (simp only: hb mb nb lb char_of_byte)
  moreover have "128 \<le> c" unfolding c hm mm nm lm using lo by auto
  ultimately show ?thesis using r0 r1' r2 r3 unfolding s by simp
qed

lemma sanitizeFilename_eq: "sanitizeFilename s = strings_Map dropSeparator s"
  unfolding sanitizeFilename_def ..

lemma byte_eq_iff: "(byte c = byte d) = (c = d)"
  by (simp add: byte_def)

lemma byte_values: "byte CHR ''/'' = 47" "byte (CHR 0x5C) = 92" "byte CHR '':'' = 58"
  by (simp_all add: byte_def)

lemma isSeparator_byte: "isSeparator c = (byte c = 47 \<or> byte c = 92 \<or> byte c = 58)"
  unfolding isSeparator_def byte_values[symmetric] byte_eq_iff ..

lemma dropSeparator_ascii:
  "dropSeparator (int (byte c)) = (if isSeparator c then - 1 else int (byte c))"
  unfolding dropSeparator_def isSeparator_byte rune_of_def byte_values by simp

lemma dropSeparator_high: "0x80 \<le> r \<Longrightarrow> dropSeparator r = r"
  unfolding dropSeparator_def rune_of_def byte_values by simp

lemma high_not_separator: "0x80 \<le> byte b \<Longrightarrow> \<not> isSeparator b"
  unfolding isSeparator_byte by simp

lemma filter_high:
  assumes "\<forall>b \<in> set xs. 0x80 \<le> byte b"
  shows "filter (\<lambda>b. \<not> isSeparator b) xs = xs"
  using assms by (simp add: high_not_separator)

lemma Decode_width:
  assumes "DecodeRuneInString s = (c, w)" "s \<noteq> []"
  shows "0 < w \<and> w \<le> length s"
  using Decode_width_cases[OF assms] Decode_width_le[OF assms(1)] by auto

lemma valid_step:
  assumes d: "DecodeRuneInString s = (c, w)" and ne: "s \<noteq> []"
    and v: "\<not> (c = RuneError \<and> w = 1)"
  shows "emit (dropSeparator c) = filter (\<lambda>b. \<not> isSeparator b) (take w s)
           \<and> (dropSeparator c = c \<longrightarrow> filter (\<lambda>b. \<not> isSeparator b) (take w s) = take w s)"
proof -
  consider "w = 1" | "w = 2" | "w = 3" | "w = 4" using Decode_width_cases[OF d ne] by blast
  then show ?thesis
  proof cases
    case 1
    with v have "c \<noteq> RuneError" by simp
    from Decode_valid_1[OF d[unfolded 1] ne this]
    have a: "c = int (byte (hd s))" "byte (hd s) < 0x80" by blast+
    obtain c0 t where s: "s = c0 # t" using ne by (cases s) auto
    have c: "c = int (byte c0)" and lt: "byte c0 < 0x80" using a unfolding s by simp_all
    have "emit (dropSeparator c) = (if isSeparator c0 then [] else [c0])"
      unfolding c dropSeparator_ascii emit_def using AppendRune_ascii[OF lt] by simp
    moreover have "isSeparator c0 \<longrightarrow> dropSeparator c \<noteq> c"
      unfolding c dropSeparator_ascii by simp
    ultimately show ?thesis unfolding 1 s by simp
  next
    case 2
    from Decode_valid_2[OF d[unfolded 2]] show ?thesis unfolding 2
      by (simp add: dropSeparator_high emit_def filter_high)
  next
    case 3
    from Decode_valid_3[OF d[unfolded 3]] show ?thesis unfolding 3
      by (simp add: dropSeparator_high emit_def filter_high)
  next
    case 4
    from Decode_valid_4[OF d[unfolded 4]] show ?thesis unfolding 4
      by (simp add: dropSeparator_high emit_def filter_high)
  qed
qed

lemma invalid_step: "emit (dropSeparator RuneError) = [CHR 0xEF, CHR 0xBF, CHR 0xBD]"
  by (simp add: dropSeparator_def rune_of_def byte_values RuneError_def emit_def
      AppendRune_def char_of_eq_iff)

lemma mapRest_valid:
  assumes "ValidString s"
  shows "mapRest dropSeparator s = filter (\<lambda>b. \<not> isSeparator b) s"
  using assms
proof (induction dropSeparator s rule: mapRest.induct)
  case (1 s)
  show ?case
  proof (cases "s = []")
    case True
    then show ?thesis by (simp add: mapRest.simps)
  next
    case False
    obtain c w where d: "DecodeRuneInString s = (c, w)" by (cases "DecodeRuneInString s")
    from "1.prems" False d have v: "\<not> (c = RuneError \<and> w = 1)" "ValidString (drop w s)"
      by (subst (asm) ValidString.simps; simp)+
    from "1.hyps"[OF False d[symmetric] refl v(2)]
    have ih: "mapRest dropSeparator (drop w s) = filter (\<lambda>b. \<not> isSeparator b) (drop w s)" .
    have split: "filter (\<lambda>b. \<not> isSeparator b) s
                   = filter (\<lambda>b. \<not> isSeparator b) (take w s)
                     @ filter (\<lambda>b. \<not> isSeparator b) (drop w s)"
      by (metis append_take_drop_id filter_append)
    have "mapRest dropSeparator s = emit (dropSeparator c) @ mapRest dropSeparator (drop w s)"
      using False d by (subst mapRest.simps) simp
    then show ?thesis using valid_step[OF d False v(1)] ih split by simp
  qed
qed

lemma strings_Map_valid:
  assumes "ValidString s"
  shows "strings_Map dropSeparator s = filter (\<lambda>b. \<not> isSeparator b) s"
  using assms
proof (induction dropSeparator s rule: strings_Map.induct)
  case (1 s)
  show ?case
  proof (cases "s = []")
    case True
    then show ?thesis by (simp add: strings_Map.simps)
  next
    case False
    obtain c w where d: "DecodeRuneInString s = (c, w)" by (cases "DecodeRuneInString s")
    from "1.prems" False d have v: "\<not> (c = RuneError \<and> w = 1)" "ValidString (drop w s)"
      by (subst (asm) ValidString.simps; simp)+
    have split: "filter (\<lambda>b. \<not> isSeparator b) s
                   = filter (\<lambda>b. \<not> isSeparator b) (take w s)
                     @ filter (\<lambda>b. \<not> isSeparator b) (drop w s)"
      by (metis append_take_drop_id filter_append)
    show ?thesis
    proof (cases "dropSeparator c = c")
      case True
      with v(1) have k: "dropSeparator c = c \<and> (c \<noteq> RuneError \<or> w \<noteq> 1)" by simp
      from "1.hyps"[OF False d[symmetric] refl refl k v(2)]
      have ih: "strings_Map dropSeparator (drop w s)
                  = filter (\<lambda>b. \<not> isSeparator b) (drop w s)" .
      have "strings_Map dropSeparator s = take w s @ strings_Map dropSeparator (drop w s)"
        using False d k by (subst strings_Map.simps) simp
      then show ?thesis using valid_step[OF d False v(1)] True ih split by simp
    next
      case neq: False
      have "strings_Map dropSeparator s
              = emit (dropSeparator c) @ mapRest dropSeparator (drop w s)"
        using False d neq by (subst strings_Map.simps) simp
      then show ?thesis
        using valid_step[OF d False v(1)] mapRest_valid[OF v(2)] split by simp
    qed
  qed
qed

lemma emitted_clean:
  assumes d: "DecodeRuneInString s = (c, w)" and ne: "s \<noteq> []"
  shows "\<forall>b \<in> set (emit (dropSeparator c)). \<not> isSeparator b"
proof (cases "c = RuneError \<and> w = 1")
  case True
  then show ?thesis using invalid_step by (simp add: isSeparator_def)
next
  case False
  from valid_step[OF d ne False] show ?thesis by simp
qed

lemma mapRest_clean: "\<forall>b \<in> set (mapRest dropSeparator s). \<not> isSeparator b"
proof (induction dropSeparator s rule: mapRest.induct)
  case (1 s)
  show ?case
  proof (cases "s = []")
    case True
    then show ?thesis by (simp add: mapRest.simps)
  next
    case False
    obtain c w where d: "DecodeRuneInString s = (c, w)" by (cases "DecodeRuneInString s")
    have "mapRest dropSeparator s = emit (dropSeparator c) @ mapRest dropSeparator (drop w s)"
      using False d by (subst mapRest.simps) simp
    then show ?thesis
      using emitted_clean[OF d False] "1.hyps"[OF False d[symmetric] refl] by auto
  qed
qed

lemma strings_Map_clean: "\<forall>b \<in> set (strings_Map dropSeparator s). \<not> isSeparator b"
proof (induction dropSeparator s rule: strings_Map.induct)
  case (1 s)
  show ?case
  proof (cases "s = []")
    case True
    then show ?thesis by (simp add: strings_Map.simps)
  next
    case False
    obtain c w where d: "DecodeRuneInString s = (c, w)" by (cases "DecodeRuneInString s")
    show ?thesis
    proof (cases "dropSeparator c = c \<and> (c \<noteq> RuneError \<or> w \<noteq> 1)")
      case True
      then have v: "\<not> (c = RuneError \<and> w = 1)" by blast
      have "strings_Map dropSeparator s = take w s @ strings_Map dropSeparator (drop w s)"
        using False d True by (subst strings_Map.simps) simp
      moreover have "\<forall>b \<in> set (take w s). \<not> isSeparator b"
        using valid_step[OF d False v] True by (metis (mono_tags, lifting) filter_id_conv)
      ultimately show ?thesis
        using "1.hyps"(1)[OF False d[symmetric] refl refl True] by auto
    next
      case neq: False
      have "strings_Map dropSeparator s
              = emit (dropSeparator c) @ mapRest dropSeparator (drop w s)"
        using False d neq by (subst strings_Map.simps) auto
      then show ?thesis using emitted_clean[OF d False] mapRest_clean by auto
    qed
  qed
qed

lemma sanitizeFilename_no_slash: "CHR ''/'' \<notin> set (sanitizeFilename s)"
  using strings_Map_clean[of s] unfolding sanitizeFilename_eq isSeparator_def by blast

section \<open>Properties of the path functions\<close>

lemma splitSlash_nonempty: "splitSlash s \<noteq> []"
  by (induction s) (auto split: list.splits)

lemma splitSlash_noslash: "CHR ''/'' \<notin> set a \<Longrightarrow> splitSlash a = [a]"
  by (induction a) auto

lemma splitSlash_slash:
  "splitSlash (a @ CHR ''/'' # b) = splitSlash a @ splitSlash b"
proof (induction a)
  case Nil
  then show ?case by simp
next
  case (Cons c a)
  obtain e es where s: "splitSlash a = e # es"
    using splitSlash_nonempty[of a] by (cases "splitSlash a") auto
  show ?case using Cons s by (auto split: list.splits)
qed

lemma splitSlash_elems: "e \<in> set (splitSlash s) \<Longrightarrow> CHR ''/'' \<notin> set e"
proof (induction s arbitrary: e)
  case Nil
  then show ?case by simp
next
  case (Cons c s)
  then show ?case by (auto split: if_splits list.splits)
qed

lemma cleanElems_append:
  "cleanElems r (xs @ ys) buf = cleanElems r ys (cleanElems r xs buf)"
  by (induction r xs buf rule: cleanElems.induct) auto

lemma cleanElems_plain:
  assumes "list_all plainElem xs"
  shows "cleanElems r xs (k, out) = (k, out @ xs)"
  using assms
  by (induction xs arbitrary: out) (auto simp: plainElem_def)

lemma cleanElems_dotdots:
  assumes "\<not> r"
  shows "cleanElems r (replicate n ''..'') (k, []) = (k + n, [])"
  using assms by (induction n arbitrary: k) auto

lemma cleanElems_invariant:
  assumes "list_all plainElem out" "\<forall>e \<in> set xs. CHR ''/'' \<notin> set e" "r \<longrightarrow> k = 0"
  shows "list_all plainElem (snd (cleanElems r xs (k, out)))
           \<and> (r \<longrightarrow> fst (cleanElems r xs (k, out)) = 0)"
  using assms
proof (induction xs arbitrary: k out)
  case Nil
  then show ?case by simp
next
  case (Cons e es)
  have bl: "list_all plainElem (butlast out)"
    using Cons.prems(1) by (auto simp: list_all_iff dest: in_set_butlastD)
  have es: "\<forall>e \<in> set es. CHR ''/'' \<notin> set e" using Cons.prems(2) by simp
  have e: "CHR ''/'' \<notin> set e" using Cons.prems(2) by simp
  consider "e = [] \<or> e = ''.''" | "e = ''..''" "out \<noteq> []" | "e = ''..''" "out = []" "\<not> r"
    | "e = ''..''" "out = []" "r" | "plainElem e"
    using e by (auto simp: plainElem_def)
  then show ?case
  proof cases
    case 1
    then show ?thesis using Cons.IH[OF Cons.prems(1) es Cons.prems(3)] by auto
  next
    case 2
    then show ?thesis using Cons.IH[OF bl es Cons.prems(3)] by simp
  next
    case 3
    then show ?thesis using Cons.IH[of "[]" "k + 1"] es by simp
  next
    case 4
    then show ?thesis using Cons.IH[OF Cons.prems(1) es Cons.prems(3)] by simp
  next
    case 5
    then have "list_all plainElem (out @ [e])" using Cons.prems(1) by simp
    from Cons.IH[OF this es Cons.prems(3)] 5 show ?thesis by (simp add: plainElem_def)
  qed
qed

lemma cleanBuf_invariant:
  "list_all plainElem (snd (cleanBuf p)) \<and> (isRooted p \<longrightarrow> fst (cleanBuf p) = 0)"
  unfolding cleanBuf_def
  using cleanElems_invariant[of "[]" "splitSlash p" "isRooted p" 0]
  by (simp add: splitSlash_elems)

lemma strings_Join_Cons:
  "es \<noteq> [] \<Longrightarrow> strings_Join (e # es) sep = e @ sep @ strings_Join es sep"
  by (cases es) auto

lemma splitSlash_Join:
  assumes "xs \<noteq> []" "\<forall>e \<in> set xs. CHR ''/'' \<notin> set e"
  shows "splitSlash (strings_Join xs ''/'') = xs"
  using assms
proof (induction xs)
  case Nil
  then show ?case by simp
next
  case (Cons e es)
  show ?case
  proof (cases "es = []")
    case True
    then show ?thesis using Cons.prems by (simp add: splitSlash_noslash)
  next
    case False
    have e: "CHR ''/'' \<notin> set e" using Cons.prems by simp
    have "splitSlash (e @ CHR ''/'' # strings_Join es ''/'') = splitSlash e @ es"
      using Cons False by (simp add: splitSlash_slash)
    then show ?thesis using False e by (simp add: strings_Join_Cons splitSlash_noslash)
  qed
qed

lemma hd_strings_Join:
  assumes "xs \<noteq> []" "hd xs \<noteq> []"
  shows "strings_Join xs sep \<noteq> [] \<and> hd (strings_Join xs sep) = hd (hd xs)"
proof (cases xs)
  case Nil
  with assms show ?thesis by simp
next
  case (Cons e es)
  with assms show ?thesis by (cases es) auto
qed

lemma plainElem_noslash: "list_all plainElem xs \<Longrightarrow> \<forall>e \<in> set xs. CHR ''/'' \<notin> set e"
  by (auto simp: list_all_iff plainElem_def)

lemma render_rooted:
  assumes "list_all plainElem out"
  shows "cleanBuf (renderPath True (0, out)) = (0, out)
           \<and> isRooted (renderPath True (0, out))"
proof (cases "out = []")
  case True
  then show ?thesis by (simp add: renderPath_def cleanBuf_def isRooted_def)
next
  case False
  have "splitSlash (CHR ''/'' # strings_Join out ''/'') = [] # out"
    using splitSlash_Join[OF False plainElem_noslash[OF assms]] by simp
  then show ?thesis
    using cleanElems_plain[OF assms, of True 0 "[]"]
    by (simp add: renderPath_def cleanBuf_def isRooted_def)
qed

lemma render_relative:
  assumes "list_all plainElem out"
  shows "cleanBuf (renderPath False (k, out)) = (k, out)
           \<and> \<not> isRooted (renderPath False (k, out))"
proof (cases "replicate k ''..'' @ out = []")
  case True
  then show ?thesis by (simp add: renderPath_def cleanBuf_def isRooted_def)
next
  case False
  let ?xs = "replicate k ''..'' @ out"
  have ns: "\<forall>e \<in> set ?xs. CHR ''/'' \<notin> set e"
    using plainElem_noslash[OF assms] by auto
  have hdx: "hd ?xs \<noteq> [] \<and> hd (hd ?xs) \<noteq> CHR ''/''"
  proof (cases k)
    case 0
    with False obtain e es where "out = e # es" by (cases out) auto
    with 0 assms show ?thesis by (auto simp: plainElem_def) (cases e; simp)
  next
    case (Suc n)
    then show ?thesis by simp
  qed
  from hd_strings_Join[OF False, of "''/''"] hdx
  have nr: "strings_Join ?xs ''/'' \<noteq> []" "\<not> isRooted (strings_Join ?xs ''/'')"
    by (simp_all add: isRooted_def)
  have "cleanElems False ?xs (0, []) = (k, out)"
    using cleanElems_dotdots[of False k 0] cleanElems_plain[OF assms, of False k "[]"]
    by (simp add: cleanElems_append)
  then show ?thesis
    using nr splitSlash_Join[OF False ns] by (simp add: renderPath_def cleanBuf_def)
qed

lemma Clean_idem:
  "cleanBuf (Clean p) = cleanBuf p \<and> isRooted (Clean p) = isRooted p"
proof (cases "p = []")
  case True
  then show ?thesis by (simp add: Clean_def cleanBuf_def isRooted_def)
next
  case False
  obtain k out where b: "cleanBuf p = (k, out)" by (cases "cleanBuf p")
  with cleanBuf_invariant[of p] have inv: "list_all plainElem out" "isRooted p \<longrightarrow> k = 0"
    by simp_all
  show ?thesis
  proof (cases "isRooted p")
    case True
    with inv have "k = 0" by simp
    with render_rooted[OF inv(1)] True False b show ?thesis by (simp add: Clean_def)
  next
    case nr: False
    with render_relative[OF inv(1), of k] False b show ?thesis by (simp add: Clean_def)
  qed
qed

lemma plainElem_not_rooted: "plainElem e \<Longrightarrow> \<not> isRooted (e @ rest)"
  by (cases e) (auto simp: plainElem_def isRooted_def)

lemma Join_session_name:
  assumes sub: "plainElem sub" and san: "CHR ''/'' \<notin> set san"
  shows "filepath_Join [sub, san] =
           (if san = [] \<or> san = ''.'' then sub
            else if san = ''..'' then ''.''
            else sub @ ''/'' @ san)"
proof -
  have ne: "sub \<noteq> []" and ns: "CHR ''/'' \<notin> set sub" using sub by (simp_all add: plainElem_def)
  have nr: "\<not> isRooted (sub @ CHR ''/'' # san)" using plainElem_not_rooted[OF sub] by simp
  have sp: "splitSlash (sub @ CHR ''/'' # san) = [sub, san]"
    using ns san by (simp add: splitSlash_slash splitSlash_noslash)
  have j: "filepath_Join [sub, san] = renderPath False (cleanElems False [sub, san] (0, []))"
    using ne nr sp by (simp add: Clean_def cleanBuf_def)
  have s1: "cleanElems False [sub, san] (0, []) = cleanElems False [san] (0, [sub])"
    using sub by (simp add: plainElem_def)
  show ?thesis unfolding j s1 using ne by (simp add: renderPath_def)
qed

lemma fullPath_within:
  assumes sub: "plainElem sub" and san: "CHR ''/'' \<notin> set san"
  shows "pathWithin base (fullPath \<lparr>BasePath = base\<rparr> (filepath_Join [sub, san]))"
proof -
  define name where "name = filepath_Join [sub, san]"
  have ne: "sub \<noteq> []" and ns: "CHR ''/'' \<notin> set sub" using sub by (simp_all add: plainElem_def)
  have "\<exists>extra. name \<noteq> [] \<and> \<not> isRooted name
          \<and> (\<forall>r buf. cleanElems r (splitSlash name) buf = (fst buf, snd buf @ extra))"
  proof -
    consider "san = [] \<or> san = ''.''" | "san = ''..''" | "plainElem san"
      using san by (auto simp: plainElem_def)
    then show ?thesis
    proof cases
      case 1
      then have "name = sub" unfolding name_def Join_session_name[OF sub san] by auto
      moreover have "\<forall>r buf. cleanElems r [sub] buf = (fst buf, snd buf @ [sub])"
        using sub by (auto simp: plainElem_def)
      ultimately show ?thesis
        using ne plainElem_not_rooted[OF sub, of "[]"] ns by (auto simp: splitSlash_noslash)
    next
      case 2
      then have "name = ''.''" unfolding name_def Join_session_name[OF sub san] by simp
      then show ?thesis by (auto simp: isRooted_def)
    next
      case 3
      then have n: "name = sub @ CHR ''/'' # san"
        unfolding name_def Join_session_name[OF sub san] by (auto simp: plainElem_def)
      have "\<forall>r buf. cleanElems r [sub, san] buf = (fst buf, snd buf @ [sub, san])"
        using sub 3 by (auto simp: plainElem_def)
      then show ?thesis
        unfolding n using plainElem_not_rooted[OF sub] ns san
        by (auto simp: splitSlash_slash splitSlash_noslash)
    qed
  qed
  then obtain extra where name: "name \<noteq> []" "\<not> isRooted name"
    and app: "\<And>r buf. cleanElems r (splitSlash name) buf = (fst buf, snd buf @ extra)"
    by blast
  show ?thesis
  proof (cases "base = []")
    case True
    then have f: "fullPath \<lparr>BasePath = base\<rparr> name = Clean name"
      using name by (simp add: fullPath_def)
    have "cleanBuf name = (0, extra)" unfolding cleanBuf_def app by simp
    then show ?thesis
      unfolding name_def[symmetric] f pathWithin_def using Clean_idem[of name] name True
      by (simp add: cleanBuf_def isRooted_def)
  next
    case False
    let ?p = "base @ CHR ''/'' # name"
    have f: "fullPath \<lparr>BasePath = base\<rparr> name = Clean ?p"
      using False by (simp add: fullPath_def)
    have r: "isRooted ?p = isRooted base" using False by (cases base) (auto simp: isRooted_def)
    have "cleanBuf ?p = cleanElems (isRooted base) (splitSlash name) (cleanBuf base)"
      unfolding cleanBuf_def r by (simp add: splitSlash_slash cleanElems_append)
    then have b: "cleanBuf ?p = (fst (cleanBuf base), snd (cleanBuf base) @ extra)"
      unfolding app .
    show ?thesis
      unfolding name_def[symmetric] f pathWithin_def using Clean_idem[of ?p] r b
      by simp
  qed
qed

section \<open>Properties of the session identifier\<close>

lemma digitChar_set: "d < 10 \<Longrightarrow> digitChar d \<in> set ''0123456789''"
  unfolding digitChar_def by (rule nth_mem) simp

lemma digitChar_stamp: "d < 10 \<Longrightarrow> digitChar d \<in> stampChars"
  unfolding stampChars_def by (rule digitChar_set)

lemma digits_set: "set (digits n) \<subseteq> stampChars"
proof (induction n rule: digits.induct)
  case (1 n)
  show ?case
  proof (cases "n < 10")
    case True
    have "digits n = [digitChar n]" using True by (subst digits.simps) simp
    then show ?thesis using digitChar_stamp[OF True] by simp
  next
    case False
    have d: "digits n = digits (n div 10) @ [digitChar (n mod 10)]"
      using False by (subst digits.simps) simp
    have "n mod 10 < 10" by simp
    from digitChar_stamp[OF this] 1[OF False] show ?thesis unfolding d by simp
  qed
qed

lemma formatChars_facts:
  "stampChars \<subseteq> formatChars" "CHR ''0'' \<in> formatChars" "CHR ''-'' \<in> formatChars"
  "CHR ''.'' \<in> formatChars" "CHR ''_'' \<in> formatChars" "CHR ''/'' \<notin> formatChars"
  by (simp_all add: formatChars_def stampChars_def)

lemma appendInt_set: "set (appendInt x w) \<subseteq> formatChars"
proof -
  have "set (digits (nat \<bar>x\<bar>)) \<subseteq> formatChars"
    using digits_set formatChars_facts(1) by blast
  moreover have "set (replicate k CHR ''0'') \<subseteq> formatChars" for k
    using formatChars_facts(2) by (cases k) auto
  ultimately show ?thesis
    using formatChars_facts(3) by (auto simp: appendInt_def Let_def)
qed

lemma appendNano_set: "set (appendNano n) \<subseteq> formatChars"
proof -
  have "set (take k (appendInt (int n) 9)) \<subseteq> formatChars" for k
    using appendInt_set[of "int n" 9] set_take_subset by fastforce
  then show ?thesis using formatChars_facts(4) by (simp add: appendNano_def Let_def)
qed

lemma Format_set: "set (Format t) \<subseteq> formatChars"
  unfolding Format_def
  by (simp add: appendInt_set appendNano_set formatChars_facts)

lemma Format_underscore: "CHR ''_'' \<in> set (Format t)"
  unfolding Format_def by simp

lemma Format_plain: "plainElem (Format t)"
proof -
  have "CHR ''/'' \<notin> set (Format t)" using Format_set[of t] formatChars_facts(6) by blast
  moreover have "Format t \<noteq> []" "Format t \<noteq> ''.''" "Format t \<noteq> ''..''"
    using Format_underscore[of t] by auto
  ultimately show ?thesis by (simp add: plainElem_def)
qed

lemma Format_exampleNow: "Format exampleNow = ''2025-07-04_09-05-03.042''"
  by (simp add: Format_def exampleNow_def appendInt_def appendNano_def digitChar_def
      digits.simps)

section \<open>Properties of the loop\<close>

lemma loop_keeps_error_invariant:
  assumes "failed s > 0 \<longrightarrow> lastError s \<noteq> None"
  shows "failed (sessionOf (loop save sub xs s)) > 0
           \<longrightarrow> lastError (sessionOf (loop save sub xs s)) \<noteq> None"
  using assms
proof (induction save sub xs s rule: loop.induct)
  case (1 save subfolder s)
  then show ?case by (simp add: sessionOf_def)
next
  case (2 save subfolder rest s)
  then show ?case by (simp add: sessionOf_def)
next
  case (3 save subfolder err rest s)
  then show ?case by (simp add: sessionOf_def Let_def)
next
  case (4 save subfolder p rest s)
  then show ?case
    by (auto simp: Let_def split: prod.splits option.splits)
qed

lemma loop_ends:
  assumes "list_ex endsLoop xs"
  shows "\<exists>s'. loop save sub xs s = TimedOut s' \<or> loop save sub xs s = LoopExit s'"
  using assms
proof (induction save sub xs s rule: loop.induct)
  case (4 save subfolder p rest s)
  then show ?case by (auto simp: Let_def split: prod.splits option.splits)
qed (auto simp: Let_def)

lemma step6_deadline: "step6 True (saved s) (failed s) (lastError s) = Some (timeoutResponse s)"
  by (simp add: step6_def timeoutResponse_def http_Error_def StatusPartialContent_def
      StatusRequestTimeout_def)

lemma step6_summary:
  assumes "failed s > 0 \<longrightarrow> lastError s \<noteq> None"
  shows "step6 False (saved s) (failed s) (lastError s) = Some (summaryResponse s)"
proof (cases "lastError s")
  case None
  with assms have "failed s = 0" by simp
  with None show ?thesis
    by (simp add: step6_def summaryResponse_def http_Error_def StatusBadRequest_def
        StatusCreated_def)
next
  case (Some e)
  then show ?thesis
    by (simp add: step6_def summaryResponse_def http_Error_def StatusBadRequest_def
        StatusCreated_def StatusPartialContent_def droppedConnection_def errorText_def)
qed

lemma ascii_ValidString:
  assumes "list_all (\<lambda>c. byte c < 0x80) s"
  shows "ValidString s"
  using assms
proof (induction s)
  case Nil
  then show ?case by (simp add: ValidString.simps)
next
  case (Cons c s)
  then have a: "byte c < 0x80" by simp
  show ?case using Cons a
    by (subst ValidString.simps) (simp add: Decode_ascii[OF a] RuneError_def)
qed

lemma sanitizeFilename_ascii:
  assumes "list_all (\<lambda>c. byte c < 0x80) s"
  shows "sanitizeFilename s = filter (\<lambda>c. \<not> isSeparator c) s"
  unfolding sanitizeFilename_eq using strings_Map_valid[OF ascii_ValidString[OF assms]] .

lemma loop_eof:
  "loop save sub (NextPart (Inl IoEOF) # rest) s
     = LoopExit (s\<lparr>calls := calls s @ [CallNextPart]\<rparr>)"
  by (simp add: Let_def)

lemma loop_interrupted:
  assumes "err \<noteq> IoEOF" "isUnexpectedEOF err"
  shows "loop save sub (NextPart (Inl err) # rest) s
           = loop save sub rest
               (s\<lparr>calls := calls s @ [CallNextPart], lastError := Some err,
                  failed := failed s + 1\<rparr>)"
  using assms by (simp add: Let_def)

lemma loop_broken:
  assumes "err \<noteq> IoEOF" "\<not> isUnexpectedEOF err"
  shows "loop save sub (NextPart (Inl err) # rest) s
           = LoopExit (s\<lparr>calls := calls s @ [CallNextPart], lastError := Some err\<rparr>)"
  using assms by (simp add: Let_def)

lemma loop_field:
  assumes "FileName p = []"
  shows "loop save sub (NextPart (Inr p) # rest) s
           = loop save sub rest (s\<lparr>calls := calls s @ [CallNextPart]\<rparr>)"
  using assms by (simp add: Let_def)

lemma loop_save_failed:
  assumes "FileName p \<noteq> []"
    and "save (store s) (filepath_Join [sub, sanitizeFilename (FileName p)]) p = (Some e, st)"
  shows "loop save sub (NextPart (Inr p) # rest) s
           = loop save sub rest
               (s\<lparr>calls := calls s @ [CallNextPart,
                    CallSaveFile (filepath_Join [sub, sanitizeFilename (FileName p)]) p],
                  store := st, failed := failed s + 1, lastError := Some e\<rparr>)"
  using assms by (simp add: Let_def)

lemma loop_save_ok:
  assumes "FileName p \<noteq> []"
    and "save (store s) (filepath_Join [sub, sanitizeFilename (FileName p)]) p = (None, st)"
  shows "loop save sub (NextPart (Inr p) # rest) s
           = loop save sub rest
               (s\<lparr>calls := calls s @ [CallNextPart,
                    CallSaveFile (filepath_Join [sub, sanitizeFilename (FileName p)]) p],
                  store := st, saved := saved s + 1\<rparr>)"
  using assms by (simp add: Let_def)

lemma loop_relates:
  assumes nil: "\<And>s. P [] s s"
    and deadline: "\<And>rest s. P (CtxDone # rest) s s"
    and eof: "\<And>rest s. P (NextPart (Inl IoEOF) # rest) s (s\<lparr>calls := calls s @ [CallNextPart]\<rparr>)"
    and interrupted: "\<And>err rest s s'. err \<noteq> IoEOF \<Longrightarrow> isUnexpectedEOF err \<Longrightarrow>
        P rest (s\<lparr>calls := calls s @ [CallNextPart], lastError := Some err,
                  failed := failed s + 1\<rparr>) s' \<Longrightarrow>
        P (NextPart (Inl err) # rest) s s'"
    and broken: "\<And>err rest s. err \<noteq> IoEOF \<Longrightarrow> \<not> isUnexpectedEOF err \<Longrightarrow>
        P (NextPart (Inl err) # rest) s
          (s\<lparr>calls := calls s @ [CallNextPart], lastError := Some err\<rparr>)"
    and field: "\<And>p rest s s'. FileName p = [] \<Longrightarrow>
        P rest (s\<lparr>calls := calls s @ [CallNextPart]\<rparr>) s' \<Longrightarrow>
        P (NextPart (Inr p) # rest) s s'"
    and failed: "\<And>p rest s s' e st. FileName p \<noteq> [] \<Longrightarrow>
        save (store s) (filepath_Join [sub, sanitizeFilename (FileName p)]) p = (Some e, st) \<Longrightarrow>
        P rest (s\<lparr>calls := calls s @ [CallNextPart,
                    CallSaveFile (filepath_Join [sub, sanitizeFilename (FileName p)]) p],
                  store := st, failed := failed s + 1, lastError := Some e\<rparr>) s' \<Longrightarrow>
        P (NextPart (Inr p) # rest) s s'"
    and ok: "\<And>p rest s s' st. FileName p \<noteq> [] \<Longrightarrow>
        save (store s) (filepath_Join [sub, sanitizeFilename (FileName p)]) p = (None, st) \<Longrightarrow>
        P rest (s\<lparr>calls := calls s @ [CallNextPart,
                    CallSaveFile (filepath_Join [sub, sanitizeFilename (FileName p)]) p],
                  store := st, saved := saved s + 1\<rparr>) s' \<Longrightarrow>
        P (NextPart (Inr p) # rest) s s'"
  shows "P xs s (sessionOf (loop save sub xs s))"
proof (induction xs arbitrary: s)
  case Nil
  show ?case using nil by (simp add: sessionOf_def)
next
  case (Cons x rest)
  show ?case
  proof (cases x)
    case CtxDone
    then show ?thesis using deadline by (simp add: sessionOf_def)
  next
    case (NextPart res)
    show ?thesis
    proof (cases res)
      case (Inl err)
      consider "err = IoEOF" | "err \<noteq> IoEOF" "isUnexpectedEOF err"
        | "err \<noteq> IoEOF" "\<not> isUnexpectedEOF err" by blast
      then show ?thesis
      proof cases
        case 1
        then show ?thesis unfolding NextPart Inl using eof by (simp add: sessionOf_def Let_def)
      next
        case 2
        show ?thesis unfolding NextPart Inl loop_interrupted[OF 2]
          by (rule interrupted[OF 2 Cons.IH])
      next
        case 3
        show ?thesis unfolding NextPart Inl loop_broken[OF 3]
          using broken[OF 3] by (simp add: sessionOf_def)
      qed
    next
      case (Inr p)
      show ?thesis
      proof (cases "FileName p = []")
        case True
        show ?thesis unfolding NextPart Inr loop_field[OF True]
          by (rule field[OF True Cons.IH])
      next
        case False
        obtain err st where
          sv: "save (store s) (filepath_Join [sub, sanitizeFilename (FileName p)]) p = (err, st)"
          by (cases "save (store s) (filepath_Join [sub, sanitizeFilename (FileName p)]) p")
        show ?thesis
        proof (cases err)
          case None
          show ?thesis
            unfolding NextPart Inr
              loop_save_ok[where save=save and s=s and sub=sub and p=p, OF False sv[unfolded None]]
            by (rule ok[OF False sv[unfolded None] Cons.IH])
        next
          case (Some e)
          show ?thesis
            unfolding NextPart Inr
              loop_save_failed[where save=save and s=s and sub=sub and p=p, OF False sv[unfolded Some]]
            by (rule failed[OF False sv[unfolded Some] Cons.IH])
        qed
      qed
    qed
  qed
qed

lemma loop_calls:
  "\<exists>new. calls (sessionOf (loop save sub xs s)) = calls s @ new
      \<and> list_all (\<lambda>c. \<not> isVerifyCall c \<and> joinedName sub c) new"
  by (rule loop_relates[where P = "\<lambda>xs s s'. \<exists>new. calls s' = calls s @ new
      \<and> list_all (\<lambda>c. \<not> isVerifyCall c \<and> joinedName sub c) new"]) auto

lemma loop_counters:
  "saved (sessionOf (loop save sub xs s)) + failed (sessionOf (loop save sub xs s))
     \<le> saved s + failed s + namedParts xs + interruptions xs"
  by (rule loop_relates[where P = "\<lambda>xs s s'. saved s' + failed s'
     \<le> saved s + failed s + namedParts xs + interruptions xs"]) auto

lemma example_names:
  "sanitizeFilename ''success.txt'' = ''success.txt''"
  "sanitizeFilename ''fail.txt'' = ''fail.txt''"
  by (simp_all add: sanitizeFilename_ascii byte_def isSeparator_def)

lemma Join_plain:
  assumes "plainElem e"
  shows "filepath_Join [Format t, e] = Format t @ ''/'' @ e"
  using Join_session_name[OF Format_plain, of e t] assms by (auto simp: plainElem_def)

lemma example_paths:
  "filepath_Join [''2025-07-04_09-05-03.042'', ''success.txt'']
     = ''2025-07-04_09-05-03.042/success.txt''"
  "filepath_Join [''2025-07-04_09-05-03.042'', ''fail.txt'']
     = ''2025-07-04_09-05-03.042/fail.txt''"
  using Join_plain[of "''success.txt''" exampleNow] Join_plain[of "''fail.txt''" exampleNow]
  by (simp_all add: Format_exampleNow plainElem_def)

lemma twoFiles_loop:
  "loop MockStorage_SaveFile ''2025-07-04_09-05-03.042'' twoFiles
     (newSession [CallVerify ''valid-token'' ''192.0.2.1:4711''] exampleStorage)
   = LoopExit
       \<lparr>saved = 1, failed = 1, lastError = Some IoErrUnexpectedEOF,
        calls = [CallVerify ''valid-token'' ''192.0.2.1:4711'', CallNextPart,
                 CallSaveFile ''2025-07-04_09-05-03.042/success.txt''
                   (filePart ''success.txt'' ''success content''),
                 CallNextPart,
                 CallSaveFile ''2025-07-04_09-05-03.042/fail.txt''
                   (filePart ''fail.txt'' ''fail content''),
                 CallNextPart],
        store = exampleStorage\<lparr>files :=
                  [''2025-07-04_09-05-03.042/success.txt'' \<mapsto> ''success content'']\<rparr>\<rparr>"
  by (simp add: twoFiles_def newSession_def filePart_def example_names example_paths
      MockStorage_SaveFile_def exampleStorage_def Let_def del: filepath_Join.simps)

lemma recorded_simps:
  "recorded a None = a" "recorded a (Some e) = Some e" "recorded None b = b"
  "recorded a (recorded b c) = recorded (recorded a b) c"
  by (auto simp: recorded_def split: option.splits)

lemma lastFailure_Cons: "lastFailure (out # ev) = recorded out (lastFailure ev)"
  by (simp add: recorded_def)

lemma finalError_Cons: "finalError (out # ev) x = recorded out (finalError ev x)"
  by (cases "(ev, x)" rule: finalError.cases) (simp_all add: recorded_def)

lemma errorAtEnd_Cons: "errorAtEnd (out # ev) e = recorded out (errorAtEnd ev e)"
  by (cases e) (simp_all add: finalError_Cons recorded_def)

lemma counts_Cons:
  "savedCount (None # ev) = savedCount ev + 1" "savedCount (Some e # ev) = savedCount ev"
  "failedCount (None # ev) = failedCount ev" "failedCount (Some e # ev) = failedCount ev + 1"
  "savedCount [] = 0" "failedCount [] = 0"
  by (simp_all add: savedCount_def failedCount_def)

lemma loop_outcome:
  "endKind (loop save sub xs s) (find endsLoop xs)
   \<and> saved (sessionOf (loop save sub xs s))
       = saved s + savedCount (outcomes save sub (beforeEnd xs) (store s))
   \<and> failed (sessionOf (loop save sub xs s))
       = failed s + failedCount (outcomes save sub (beforeEnd xs) (store s))
   \<and> lastError (sessionOf (loop save sub xs s))
       = recorded (lastError s)
           (errorAtEnd (outcomes save sub (beforeEnd xs) (store s)) (find endsLoop xs))"
proof (induction xs arbitrary: s)
  case Nil
  show ?case
    by (simp add: sessionOf_def beforeEnd_def counts_Cons recorded_simps endKind_def)
next
  case (Cons x rest)
  show ?case
  proof (cases x)
    case CtxDone
    then show ?thesis
      by (simp add: sessionOf_def beforeEnd_def counts_Cons recorded_simps endKind_def)
  next
    case (NextPart res)
    show ?thesis
    proof (cases res)
      case (Inl err)
      consider "err = IoEOF" | "err \<noteq> IoEOF" "isUnexpectedEOF err"
        | "err \<noteq> IoEOF" "\<not> isUnexpectedEOF err" by blast
      then show ?thesis
      proof cases
        case 1
        then show ?thesis unfolding NextPart Inl
          by (simp add: sessionOf_def beforeEnd_def counts_Cons recorded_simps endKind_def
              Let_def)
      next
        case 2
        let ?s = "s\<lparr>calls := calls s @ [CallNextPart], lastError := Some err,
                     failed := failed s + 1\<rparr>"
        have e: "\<not> endsLoop (NextPart (Inl err))" using 2 by simp
        have b: "beforeEnd (NextPart (Inl err) # rest) = NextPart (Inl err) # beforeEnd rest"
          using e by (simp add: beforeEnd_def)
        have f: "find endsLoop (NextPart (Inl err) # rest) = find endsLoop rest"
          using e by simp
        show ?thesis unfolding NextPart Inl loop_interrupted[OF 2] b f
          using Cons.IH[of ?s]
          by (simp add: counts_Cons errorAtEnd_Cons recorded_simps)
      next
        case 3
        then show ?thesis unfolding NextPart Inl
          by (simp add: sessionOf_def beforeEnd_def counts_Cons recorded_simps endKind_def
              Let_def)
      qed
    next
      case (Inr p)
      have b: "beforeEnd (NextPart (Inr p) # rest) = NextPart (Inr p) # beforeEnd rest"
        by (simp add: beforeEnd_def)
      have f: "find endsLoop (NextPart (Inr p) # rest) = find endsLoop rest"
        by simp
      show ?thesis
      proof (cases "FileName p = []")
        case True
        let ?s = "s\<lparr>calls := calls s @ [CallNextPart]\<rparr>"
        show ?thesis unfolding NextPart Inr loop_field[OF True] b f
          using Cons.IH[of ?s] True by simp
      next
        case False
        let ?fn = "filepath_Join [sub, sanitizeFilename (FileName p)]"
        obtain err st where sv: "save (store s) ?fn p = (err, st)"
          by (cases "save (store s) ?fn p")
        have o: "outcomes save sub (NextPart (Inr p) # beforeEnd rest) (store s)
                   = err # outcomes save sub (beforeEnd rest) st"
          using False sv by (simp del: filepath_Join.simps)
        show ?thesis
        proof (cases err)
          case None
          let ?s = "s\<lparr>calls := calls s @ [CallNextPart, CallSaveFile ?fn p],
                       store := st, saved := saved s + 1\<rparr>"
          show ?thesis
            unfolding NextPart Inr b f o
              loop_save_ok[where save=save and s=s and sub=sub and p=p, OF False sv[unfolded None]]
            using Cons.IH[of ?s] None
            by (simp add: counts_Cons errorAtEnd_Cons recorded_simps)
        next
          case (Some e)
          let ?s = "s\<lparr>calls := calls s @ [CallNextPart, CallSaveFile ?fn p],
                       store := st, failed := failed s + 1, lastError := Some e\<rparr>"
          show ?thesis
            unfolding NextPart Inr b f o
              loop_save_failed[where save=save and s=s and sub=sub and p=p, OF False sv[unfolded Some]]
            using Cons.IH[of ?s] Some
            by (simp add: counts_Cons errorAtEnd_Cons recorded_simps)
        qed
      qed
    qed
  qed
qed

lemma example_validated:
  "Method examplePost = ''POST''"
  "ParseMediaType (exampleWorld xs) (ContentType examplePost)
     = Inr (''multipart/form-data'', [''boundary'' \<mapsto> ''x''])"
  "HasPrefix ''multipart/form-data'' ''multipart/''"
  "Verify (exampleWorld xs) (TurnstileToken examplePost) (RemoteAddr examplePost) = Inr True"
  by (simp_all add: examplePost_def exampleWorld_def exampleParse_def HasPrefix_def)

lemma example_world:
  "steps (exampleWorld xs) = xs" "SaveFile (exampleWorld xs) = MockStorage_SaveFile"
  "Now (exampleWorld xs) = exampleNow" "storage (exampleWorld xs) = exampleStorage"
  by (simp_all add: exampleWorld_def)

section \<open>The claims\<close>

text \<open>
  Claim C1. Take a POST request that passes the shape check and the CAPTCHA
  verification, and the first answer of the context and the reader that ends the loop:
  the deadline, \<open>io.EOF\<close>, or a read error that is not an unexpected end of data. The
  response is the row of the table of step 6 for: that answer being the deadline; the
  number of parts before it that the backend saved; the number of parts before it
  whose save failed plus the number of interrupted reads; and the last of those errors
  (or the read error that broke the loop). Every such run has a response, and while no
  answer has ended the loop there is none. The row "no files uploaded" asks for
  \<open>failed = 0\<close>, which the code does not test: the loop keeps \<open>lastError\<close> set whenever
  \<open>failed\<close> is positive.
\<close>

theorem upload_response_table:
  assumes "Method r = ''POST''"
    and "ParseMediaType w (ContentType r) = Inr (mediaType, params)"
    and "HasPrefix mediaType ''multipart/''"
    and "Verify w (TurnstileToken r) (RemoteAddr r) = Inr True"
  shows "resp (uploadHandler w r) =
           (case find endsLoop (steps w) of
              None \<Rightarrow> None
            | Some x \<Rightarrow>
                step6 (x = CtxDone)
                  (savedCount
                     (outcomes (SaveFile w) (Format (Now w)) (beforeEnd (steps w)) (storage w)))
                  (failedCount
                     (outcomes (SaveFile w) (Format (Now w)) (beforeEnd (steps w)) (storage w)))
                  (finalError
                     (outcomes (SaveFile w) (Format (Now w)) (beforeEnd (steps w)) (storage w))
                     x))
         \<and> (find endsLoop (steps w) \<noteq> None \<longrightarrow> resp (uploadHandler w r) \<noteq> None)"
proof -
  let ?s0 = "newSession [CallVerify (TurnstileToken r) (RemoteAddr r)] (storage w)"
  let ?out = "loop (SaveFile w) (Format (Now w)) (steps w) ?s0"
  let ?ev = "outcomes (SaveFile w) (Format (Now w)) (beforeEnd (steps w)) (storage w)"
  have h: "uploadHandler w r =
             (case ?out of Running s \<Rightarrow> finish None s
              | TimedOut s \<Rightarrow> finish (Some (timeoutResponse s)) s
              | LoopExit s \<Rightarrow> finish (Some (summaryResponse s)) s)"
    using assms by (simp add: uploadHandler_def Let_def)
  have inv: "failed (sessionOf ?out) > 0 \<longrightarrow> lastError (sessionOf ?out) \<noteq> None"
    by (rule loop_keeps_error_invariant) (simp add: newSession_def)
  from loop_outcome[of "SaveFile w" "Format (Now w)" "steps w" ?s0]
  have kind: "endKind ?out (find endsLoop (steps w))"
    and sv: "saved (sessionOf ?out) = savedCount ?ev"
    and fl: "failed (sessionOf ?out) = failedCount ?ev"
    and le: "lastError (sessionOf ?out) = errorAtEnd ?ev (find endsLoop (steps w))"
    by (simp_all add: newSession_def recorded_simps)
  show ?thesis
  proof (cases "find endsLoop (steps w)")
    case None
    with kind obtain s' where "?out = Running s'" by (auto simp: endKind_def)
    with None show ?thesis unfolding h by (simp add: finish_def)
  next
    case (Some x)
    show ?thesis
    proof (cases "x = CtxDone")
      case True
      with kind Some obtain s' where o: "?out = TimedOut s'" by (auto simp: endKind_def)
      have "saved s' = savedCount ?ev" "failed s' = failedCount ?ev"
           "lastError s' = finalError ?ev x"
        using sv fl le unfolding o Some by (simp_all add: sessionOf_def)
      with step6_deadline[of s'] Some True o show ?thesis
        unfolding h by (simp add: finish_def)
    next
      case False
      with kind Some obtain s' where o: "?out = LoopExit s'" by (auto simp: endKind_def)
      have eq: "saved s' = savedCount ?ev" "failed s' = failedCount ?ev"
           "lastError s' = finalError ?ev x"
        using sv fl le unfolding o Some by (simp_all add: sessionOf_def)
      from inv have "failed s' > 0 \<longrightarrow> lastError s' \<noteq> None"
        unfolding o by (simp add: sessionOf_def)
      from step6_summary[OF this] eq Some False o show ?thesis
        unfolding h by (simp add: finish_def)
    qed
  qed
qed

text \<open>
  One run for each row of the table, in its order: the deadline after one saved file;
  the deadline before the first part is read; a body with a form field only; a
  dropped connection; a framing error; the two files of the test
  \<open>TestUploadHandler_PartialSuccess\<close>, the second refused by the backend; one file.
\<close>

theorem upload_response_table_witness:
  "resp (uploadHandler (exampleWorld
       [NextPart (Inr (filePart ''success.txt'' ''abc'')), CtxDone,
        NextPart (Inr (filePart ''fail.txt'' ''def''))]) examplePost)
     = Some \<lparr>status = 206,
             body = ''Upload partially completed: 1 file(s) uploaded, 0 failed due to timeout''\<rparr>
   \<and> resp (uploadHandler (exampleWorld
       [CtxDone, NextPart (Inr (filePart ''success.txt'' ''abc''))]) examplePost)
     = Some \<lparr>status = 408, body = ''Upload timed out'' @ [CHR 0x0A]\<rparr>
   \<and> resp (uploadHandler (exampleWorld
       [NextPart (Inr (filePart [] ''a form field'')), NextPart (Inl IoEOF)]) examplePost)
     = Some \<lparr>status = 400, body = ''No files uploaded'' @ [CHR 0x0A]\<rparr>
   \<and> resp (uploadHandler (exampleWorld
       [NextPart (Inl IoErrUnexpectedEOF), NextPart (Inl IoEOF)]) examplePost)
     = Some \<lparr>status = 400,
             body = ''Upload failed due to connection issues. Please check your internet connection and try again.''
                      @ [CHR 0x0A]\<rparr>
   \<and> resp (uploadHandler (exampleWorld
       [NextPart (Inl (ErrorString ''multipart: boundary is empty''))]) examplePost)
     = Some \<lparr>status = 400,
             body = ''Upload failed: multipart: boundary is empty'' @ [CHR 0x0A]\<rparr>
   \<and> resp (uploadHandler (exampleWorld twoFiles) examplePost)
     = Some \<lparr>status = 206, body = ''Partially successful: 1 file(s) uploaded, 1 failed''\<rparr>
   \<and> resp (uploadHandler (exampleWorld
       [NextPart (Inr (filePart ''success.txt'' ''abc'')), NextPart (Inl IoEOF)]) examplePost)
     = Some \<lparr>status = 201, body = ''Uploaded 1 file(s)''\<rparr>"
proof -
  note ev = example_world Format_exampleNow beforeEnd_def filePart_def
    example_names example_paths MockStorage_SaveFile_def exampleStorage_def
    savedCount_def failedCount_def step6_def droppedConnection_def errorText_def
    isUnexpectedEOF_def HasPrefix_def digits.simps digitChar_def twoFiles_def
  have r1: "resp (uploadHandler (exampleWorld
       [NextPart (Inr (filePart ''success.txt'' ''abc'')), CtxDone,
        NextPart (Inr (filePart ''fail.txt'' ''def''))]) examplePost)
     = Some \<lparr>status = 206,
             body = ''Upload partially completed: 1 file(s) uploaded, 0 failed due to timeout''\<rparr>"
    using upload_response_table[OF example_validated]
    by (simp add: ev del: filepath_Join.simps)
  have r2: "resp (uploadHandler (exampleWorld
       [CtxDone, NextPart (Inr (filePart ''success.txt'' ''abc''))]) examplePost)
     = Some \<lparr>status = 408, body = ''Upload timed out'' @ [CHR 0x0A]\<rparr>"
    using upload_response_table[OF example_validated]
    by (simp add: ev del: filepath_Join.simps)
  have r3: "resp (uploadHandler (exampleWorld
       [NextPart (Inr (filePart [] ''a form field'')), NextPart (Inl IoEOF)]) examplePost)
     = Some \<lparr>status = 400, body = ''No files uploaded'' @ [CHR 0x0A]\<rparr>"
    using upload_response_table[OF example_validated]
    by (simp add: ev del: filepath_Join.simps)
  have r4: "resp (uploadHandler (exampleWorld
       [NextPart (Inl IoErrUnexpectedEOF), NextPart (Inl IoEOF)]) examplePost)
     = Some \<lparr>status = 400,
             body = ''Upload failed due to connection issues. Please check your internet connection and try again.''
                      @ [CHR 0x0A]\<rparr>"
    using upload_response_table[OF example_validated]
    by (simp add: ev del: filepath_Join.simps)
  have r5: "resp (uploadHandler (exampleWorld
       [NextPart (Inl (ErrorString ''multipart: boundary is empty''))]) examplePost)
     = Some \<lparr>status = 400,
             body = ''Upload failed: multipart: boundary is empty'' @ [CHR 0x0A]\<rparr>"
    using upload_response_table[OF example_validated]
    by (simp add: ev del: filepath_Join.simps)
  have r6: "resp (uploadHandler (exampleWorld twoFiles) examplePost)
     = Some \<lparr>status = 206, body = ''Partially successful: 1 file(s) uploaded, 1 failed''\<rparr>"
    using upload_response_table[OF example_validated]
    by (simp add: ev del: filepath_Join.simps)
  have r7: "resp (uploadHandler (exampleWorld
       [NextPart (Inr (filePart ''success.txt'' ''abc'')), NextPart (Inl IoEOF)]) examplePost)
     = Some \<lparr>status = 201, body = ''Uploaded 1 file(s)''\<rparr>"
    using upload_response_table[OF example_validated]
    by (simp add: ev del: filepath_Join.simps)
  from r1 r2 r3 r4 r5 r6 r7 show ?thesis by blast
qed

end
